theory Spec2Isabelle
  imports Complex_Main "HOL-Library.Word"
begin

section \<open>The board: pins, levels, constants\<close>

text \<open>
  The firmware is one file, \<^verbatim>\<open>src/main.cpp\<close>. It drives four relays (intake valve, main
  pump, drain pump, soap dispenser), a heater line, an indicator and a buzzer, and reads a
  level switch and a thermistor. The pin numbers of the source are names here; the source
  never computes with them.
\<close>

datatype pin =
    WATER_LOAD_PIN | MAIN_PUMP_PIN | DRAIN_PIN | SOAP_PIN | HEATER_PIN
  | WATER_DISABLED_PIN | TEMP_SENSOR | LED_PIN | SPEAKER_PIN | SWITCH_PIN

datatype level = LOW | HIGH

text \<open>The relay module and the indicator are active low; the heater line is active high.\<close>

abbreviation (input) RELAY_MODULE_OFF :: level where "RELAY_MODULE_OFF \<equiv> HIGH"
abbreviation (input) RELAY_MODULE_ON :: level where "RELAY_MODULE_ON \<equiv> LOW"
abbreviation (input) LED_OFF :: level where "LED_OFF \<equiv> HIGH"
abbreviation (input) LED_ON :: level where "LED_ON \<equiv> LOW"

text \<open>Error and message codes are plain \<^verbatim>\<open>int\<close>s in the source: they count beeps.\<close>

definition GENERIC_ISSUE :: int where "GENERIC_ISSUE = 1"
definition DRAIN_ISSUE :: int where "DRAIN_ISSUE = 2"
definition FAILED_LOAD_ISSUE :: int where "FAILED_LOAD_ISSUE = 3"
definition FAILED_TOP_UP_ISSUE :: int where "FAILED_TOP_UP_ISSUE = 4"
definition FAILED_REACH_TEMP :: int where "FAILED_REACH_TEMP = 5"

definition WELCOME_MSG :: int where "WELCOME_MSG = 2"
definition LOAD_MSG :: int where "LOAD_MSG = 3"
definition DRAIN_MSG :: int where "DRAIN_MSG = 4"

text \<open>
  Times, in milliseconds. \<^verbatim>\<open>millis()\<close> and every variable that holds one of its values
  are \<^verbatim>\<open>unsigned long\<close>, 32 bits: the timeouts are compared at that type.
\<close>

type_synonym ulong = "32 word"

definition DRAIN_TIME :: nat where "DRAIN_TIME = 22000"
definition LOAD_TIMEOUT :: ulong where "LOAD_TIMEOUT = 200000"
definition HEATER_TIMEOUT :: ulong where "HEATER_TIMEOUT = 600000"

section \<open>The Arduino primitives\<close>

text \<open>
  The world outside the program is a pair of signals over time, in milliseconds since
  power-up: what the level line reads (\<^verbatim>\<open>WATER_DISABLED_PIN\<close> is high when there is no
  water) and what the analog converter returns for the thermistor. The converter has 10
  bits, so a reading is one of 0..1023.

  The program's own state is the clock and the log of everything it did, oldest first.
  Only \<^verbatim>\<open>delay\<close> moves the clock: the time the processor spends between two delays is
  not modelled. \<^verbatim>\<open>tone\<close> does not block. The clock is the true time, a natural number;
  \<^verbatim>\<open>millis()\<close> returns it cut to 32 bits.
\<close>

record env =
  water_disabled :: "nat \<Rightarrow> bool"
  temp_sensor :: "nat \<Rightarrow> 10 word"

datatype event =
    DigitalWrite pin level
  | DigitalRead pin
  | AnalogRead pin
  | Tone pin nat nat
  | Delay nat

record state =
  now :: nat
  trace :: "event list"

definition emit :: "event \<Rightarrow> state \<Rightarrow> state" where
  "emit e s = s\<lparr>trace := trace s @ [e]\<rparr>"

definition millis :: "state \<Rightarrow> ulong" where
  "millis s = of_nat (now s)"

definition delay :: "nat \<Rightarrow> state \<Rightarrow> state" where
  "delay ms s = emit (Delay ms) (s\<lparr>now := now s + ms\<rparr>)"

definition digitalWrite :: "pin \<Rightarrow> level \<Rightarrow> state \<Rightarrow> state" where
  "digitalWrite p v s = emit (DigitalWrite p v) s"

definition tone :: "pin \<Rightarrow> nat \<Rightarrow> nat \<Rightarrow> state \<Rightarrow> state" where
  "tone p frequency duration s = emit (Tone p frequency duration) s"

text \<open>
  \<^verbatim>\<open>digitalRead\<close> is called on the level line only in the functions modelled here
  (\<^verbatim>\<open>isLoaded\<close>); the switch is read by \<^verbatim>\<open>setup\<close> and \<^verbatim>\<open>loop\<close>, which are not, so the
  world has no signal for it. The pin read is logged.
\<close>

definition digitalRead :: "env \<Rightarrow> pin \<Rightarrow> state \<Rightarrow> bool \<times> state" where
  "digitalRead e p s = (water_disabled e (now s), emit (DigitalRead p) s)"

definition analogRead :: "env \<Rightarrow> pin \<Rightarrow> state \<Rightarrow> int \<times> state" where
  "analogRead e p s = (uint (temp_sensor e (now s)), emit (AnalogRead p) s)"

text \<open>
  An \<^verbatim>\<open>int\<close> passed where \<^verbatim>\<open>unsigned long\<close> is expected (the arguments of
  \<^verbatim>\<open>delay\<close> and \<^verbatim>\<open>tone\<close>) is converted modulo \<open>2 ^ 32\<close>.
\<close>

definition to_ulong :: "int \<Rightarrow> nat" where
  "to_ulong x = nat (x mod 2 ^ 32)"

section \<open>reset, beeps, crash\<close>

text \<open>\<^verbatim>\<open>void reset(int stabiliseTime = 0)\<close>, lines 46-64.\<close>

definition reset :: "int \<Rightarrow> state \<Rightarrow> state" where
  "reset stabiliseTime s =
    (let s = digitalWrite HEATER_PIN LOW s;
         s = delay (to_ulong stabiliseTime) s;
         s = digitalWrite WATER_LOAD_PIN RELAY_MODULE_OFF s;
         s = delay (to_ulong stabiliseTime) s;
         s = digitalWrite DRAIN_PIN RELAY_MODULE_OFF s;
         s = delay (to_ulong stabiliseTime) s;
         s = digitalWrite SOAP_PIN RELAY_MODULE_OFF s;
         s = delay (to_ulong stabiliseTime) s;
         s = digitalWrite LED_PIN LED_OFF s;
         s = delay (to_ulong stabiliseTime) s;
         s = digitalWrite MAIN_PUMP_PIN RELAY_MODULE_OFF s;
         s = delay (to_ulong stabiliseTime) s
     in s)"

text \<open>
  \<^verbatim>\<open>void beep(int many, int length = 150, int delayLength = 50)\<close>, lines 67-72. The
  loop counter is the first argument of \<open>beep_from\<close>.
\<close>

function beep_from :: "int \<Rightarrow> int \<Rightarrow> int \<Rightarrow> int \<Rightarrow> state \<Rightarrow> state" where
  "beep_from i many len delayLength s =
    (if i < many
     then beep_from (i + 1) many len delayLength
            (delay (to_ulong (len + delayLength)) (tone SPEAKER_PIN 1000 (to_ulong len) s))
     else s)"
  by pat_completeness auto
termination
  by (relation "measure (\<lambda>(i, many, len, delayLength, s). nat (many - i))") auto

declare beep_from.simps [simp del]

definition beep :: "int \<Rightarrow> int \<Rightarrow> int \<Rightarrow> state \<Rightarrow> state" where
  "beep many len delayLength s = beep_from 0 many len delayLength s"

text \<open>\<^verbatim>\<open>beepError\<close>, lines 75-79, and \<^verbatim>\<open>beepMessage\<close>, lines 82-85.\<close>

definition beepError :: "int \<Rightarrow> state \<Rightarrow> state" where
  "beepError issue s = beep issue 500 300 (delay 100 (beep 10 50 50 s))"

definition beepMessage :: "int \<Rightarrow> state \<Rightarrow> state" where
  "beepMessage message s = beep message 150 50 (beep 2 350 220 s)"

text \<open>
  \<^verbatim>\<open>void crash(int issue)\<close>, lines 88-94, never returns: after \<^verbatim>\<open>reset(500)\<close> it
  beeps the issue forever. A crash is therefore the end of the run, and its value is the
  issue together with the state the reset leaves; the endless beeping that follows is
  not part of the log.
\<close>

type_synonym fault = "int \<times> state"

definition crash :: "int \<Rightarrow> state \<Rightarrow> fault" where
  "crash issue s = (issue, reset 500 s)"

section \<open>The level switch\<close>

text \<open>
  \<^verbatim>\<open>bool isLoaded()\<close>, lines 97-106. The loop counter is the second argument of
  \<open>isLoaded_from\<close>.
\<close>

function isLoaded_from :: "env \<Rightarrow> int \<Rightarrow> state \<Rightarrow> bool \<times> state" where
  "isLoaded_from e i s =
    (if i < 10
     then (let (v, s1) = digitalRead e WATER_DISABLED_PIN s
           in if v then (False, s1) else isLoaded_from e (i + 1) (delay 1 s1))
     else (True, s))"
  by pat_completeness auto
termination
  by (relation "measure (\<lambda>(e, i, s). nat (10 - i))") auto

declare isLoaded_from.simps [simp del]

definition isLoaded :: "env \<Rightarrow> state \<Rightarrow> bool \<times> state" where
  "isLoaded e s = isLoaded_from e 0 s"

section \<open>drain\<close>

text \<open>\<^verbatim>\<open>void drain()\<close>, lines 114-127.\<close>

definition drain :: "env \<Rightarrow> state \<Rightarrow> fault + state" where
  "drain e s =
    (let s = reset 1000 s;
         s = digitalWrite DRAIN_PIN RELAY_MODULE_ON s;
         s = beepMessage DRAIN_MSG s;
         s = delay DRAIN_TIME s;
         s = digitalWrite DRAIN_PIN RELAY_MODULE_OFF s;
         (filled, s) = isLoaded e s
     in if filled then Inl (crash DRAIN_ISSUE s) else Inr s)"

section \<open>A poll in closed form\<close>

text \<open>
  \<open>clean_run e t n\<close> counts the samples from time \<open>t\<close> on, one per millisecond and at
  most \<open>n\<close>, that read "water" before the first one that does not. \<open>poll_log k n\<close> is
  what a poll of \<open>n\<close> samples logs when \<open>k\<close> of them were clean. Both serve the
  proofs only; the program is \<open>isLoaded\<close>.
\<close>

fun clean_run :: "env \<Rightarrow> nat \<Rightarrow> nat \<Rightarrow> nat" where
  "clean_run e t 0 = 0"
| "clean_run e t (Suc n) = (if water_disabled e t then 0 else Suc (clean_run e (Suc t) n))"

definition poll_log :: "nat \<Rightarrow> nat \<Rightarrow> event list" where
  "poll_log k n =
     concat (replicate k [DigitalRead WATER_DISABLED_PIN, Delay 1])
     @ (if k < n then [DigitalRead WATER_DISABLED_PIN] else [])"

lemma clean_run_le: "clean_run e t n \<le> n"
  by (induction n arbitrary: t) auto

lemma clean_run_full: "clean_run e t n = n \<longleftrightarrow> (\<forall>k<n. \<not> water_disabled e (t + k))"
proof (induction n arbitrary: t)
  case 0
  show ?case by simp
next
  case (Suc n)
  have "(\<forall>k<Suc n. \<not> water_disabled e (t + k))
        \<longleftrightarrow> \<not> water_disabled e t \<and> (\<forall>k<n. \<not> water_disabled e (Suc t + k))"
    by (auto simp: less_Suc_eq_0_disj)
  with Suc.IH[of "Suc t"] show ?case by simp
qed

lemma clean_run_stop:
  "clean_run e t n < n \<Longrightarrow> water_disabled e (t + clean_run e t n)"
proof (induction n arbitrary: t)
  case 0
  then show ?case by simp
next
  case (Suc n)
  show ?case
  proof (cases "water_disabled e t")
    case True
    then show ?thesis by simp
  next
    case False
    with Suc.prems have "clean_run e (Suc t) n < n" by simp
    from Suc.IH[OF this] False show ?thesis by simp
  qed
qed

lemma clean_run_before:
  "k < clean_run e t n \<Longrightarrow> \<not> water_disabled e (t + k)"
proof (induction n arbitrary: t k)
  case 0
  then show ?case by simp
next
  case (Suc n)
  show ?case
  proof (cases k)
    case 0
    with Suc.prems show ?thesis by (simp split: if_splits)
  next
    case (Suc j)
    with Suc.prems have "j < clean_run e (Suc t) n" by (simp split: if_splits)
    from Suc.IH[OF this] Suc show ?thesis by simp
  qed
qed

lemma isLoaded_from_eq:
  "0 \<le> i \<Longrightarrow> i \<le> 10 \<Longrightarrow>
   isLoaded_from e i s =
     (clean_run e (now s) (nat (10 - i)) = nat (10 - i),
      s\<lparr>now := now s + clean_run e (now s) (nat (10 - i)),
        trace := trace s @ poll_log (clean_run e (now s) (nat (10 - i))) (nat (10 - i))\<rparr>)"
proof (induction e i s rule: isLoaded_from.induct)
  case (1 e i s)
  show ?case
  proof (cases "i < 10")
    case False
    with "1.prems" have "i = 10" by simp
    then show ?thesis
      by (subst isLoaded_from.simps) (simp add: poll_log_def)
  next
    case True
    define n where "n = nat (10 - (i + 1))"
    have n: "nat (10 - i) = Suc n"
      unfolding n_def using True "1.prems" by simp
    show ?thesis
    proof (cases "water_disabled e (now s)")
      case wd: True
      have "isLoaded_from e i s = (False, emit (DigitalRead WATER_DISABLED_PIN) s)"
        using True wd by (subst isLoaded_from.simps) (simp add: digitalRead_def)
      then show ?thesis
        using wd by (simp add: n emit_def poll_log_def)
    next
      case wd: False
      let ?s1 = "delay 1 (emit (DigitalRead WATER_DISABLED_PIN) s)"
      have step: "isLoaded_from e i s = isLoaded_from e (i + 1) ?s1"
        using True wd by (subst isLoaded_from.simps) (simp add: digitalRead_def)
      have ih: "isLoaded_from e (i + 1) ?s1 =
        (clean_run e (now ?s1) n = n,
         ?s1\<lparr>now := now ?s1 + clean_run e (now ?s1) n,
             trace := trace ?s1 @ poll_log (clean_run e (now ?s1) n) n\<rparr>)"
        unfolding n_def
        by (rule "1.IH"[of "digitalRead e WATER_DISABLED_PIN s" False "emit (DigitalRead WATER_DISABLED_PIN) s"])
           (use True wd "1.prems" in \<open>simp_all add: digitalRead_def\<close>)
      have now1: "now ?s1 = Suc (now s)" by (simp add: delay_def emit_def)
      have tr1: "trace ?s1 = trace s @ [DigitalRead WATER_DISABLED_PIN, Delay 1]"
        by (simp add: delay_def emit_def)
      have pl: "poll_log (Suc k) (Suc n) = [DigitalRead WATER_DISABLED_PIN, Delay 1] @ poll_log k n" for k
        by (simp add: poll_log_def)
      have cr: "clean_run e (now s) (Suc n) = Suc (clean_run e (Suc (now s)) n)"
        using wd by simp
      show ?thesis
        unfolding step ih n cr pl now1 tr1
        by (simp add: delay_def emit_def)
    qed
  qed
qed

section \<open>Clock arithmetic\<close>

text \<open>
  The elapsed times of the source are differences of 32-bit values. The lemmas here read
  them back as natural numbers where nothing wraps.
\<close>

lemma unat_add_small:
  fixes a :: "32 word"
  shows "unat a + k < 2 ^ 32 \<Longrightarrow> unat (a + of_nat k) = unat a + k"
  by (simp add: unat_word_ariths unat_of_nat)

lemma unat_sub_small:
  fixes a b :: "32 word"
  shows "unat b \<le> unat a \<Longrightarrow> unat (a - b) = unat a - unat b"
  by (simp add: unat_sub word_le_nat_alt)

lemma measure_step:
  fixes a :: "32 word"
  assumes k: "k \<le> (9::nat)" and lt: "a + of_nat k < 200000"
  shows "unat (200020 - (a + of_nat k + 10)) < unat (200020 - a)"
proof -
  define b where "b = a + of_nat k"
  have u: "unat b < 200000"
    using lt unfolding b_def by (simp add: word_less_nat_alt)
  have b10: "unat (b + 10) = unat b + 10"
    using unat_add_small[of b 10] u by simp
  have lhs: "unat (200020 - (b + 10)) = 200010 - unat b"
    using unat_sub_small[of "b + 10" 200020] b10 u by simp
  have sb: "unat (200020 - b) = 200020 - unat b"
    using unat_sub_small[of b 200020] u by simp
  have eq: "200020 - a = (200020 - b) + of_nat k"
    unfolding b_def by simp
  have "unat ((200020 - b) + of_nat k) = 200020 - unat b + k"
    using unat_add_small[of "200020 - b" k] sb k u by simp
  then have rhs: "unat (200020 - a) = 200020 - unat b + k"
    by (simp only: eq)
  show ?thesis
    using lhs rhs u unfolding b_def by simp
qed

lemma now_emit [simp]: "now (emit ev s) = now s"
  by (simp add: emit_def)

lemma trace_emit [simp]: "trace (emit ev s) = trace s @ [ev]"
  by (simp add: emit_def)

lemma now_delay [simp]: "now (delay ms s) = now s + ms"
  by (simp add: delay_def)

lemma trace_delay [simp]: "trace (delay ms s) = trace s @ [Delay ms]"
  by (simp add: delay_def)

lemma now_digitalWrite [simp]: "now (digitalWrite p v s) = now s"
  by (simp add: digitalWrite_def)

lemma trace_digitalWrite [simp]: "trace (digitalWrite p v s) = trace s @ [DigitalWrite p v]"
  by (simp add: digitalWrite_def)

lemma now_tone [simp]: "now (tone p f d s) = now s"
  by (simp add: tone_def)

lemma trace_tone [simp]: "trace (tone p f d s) = trace s @ [Tone p f d]"
  by (simp add: tone_def)

lemma isLoaded_eq:
  "isLoaded e s =
     (clean_run e (now s) 10 = 10,
      s\<lparr>now := now s + clean_run e (now s) 10,
        trace := trace s @ poll_log (clean_run e (now s) 10) 10\<rparr>)"
  using isLoaded_from_eq[of 0 e s] by (simp add: isLoaded_def)

lemma millis_shift: "now s' = now s + d \<Longrightarrow> millis s' - ls = (millis s - ls) + of_nat d"
  by (simp add: millis_def)

lemma elapsed_shift:
  "now s' = now s + d \<Longrightarrow> unat (millis s - ls) + d < 2 ^ 32 \<Longrightarrow>
   unat (millis s' - ls) = unat (millis s - ls) + d"
  using unat_add_small[of "millis s - ls" d] by (simp add: millis_shift)

section \<open>load\<close>

text \<open>
  \<^verbatim>\<open>void load()\<close>, lines 133-195, has four waiting loops. Each is a function of its
  own here, named after what it waits for; \<open>load_base\<close> and \<open>load_extend\<close> are the two
  halves of the body, before and after \<^verbatim>\<open>loadTime\<close> is measured.

  The first loop, lines 142-144: poll every 10 ms until the switch reads "water" or
  \<^verbatim>\<open>LOAD_TIMEOUT\<close> has passed. It ends from every state, whatever the clock and
  \<^verbatim>\<open>loadStarts\<close> are.
\<close>

function wait_base :: "env \<Rightarrow> ulong \<Rightarrow> state \<Rightarrow> state" where
  "wait_base e loadStarts s =
    (let (filled, s1) = isLoaded e s
     in if \<not> filled \<and> millis s1 - loadStarts < LOAD_TIMEOUT
        then wait_base e loadStarts (delay 10 s1)
        else s1)"
  by pat_completeness auto
termination
proof (relation "measure (\<lambda>(e, loadStarts, s). unat (200020 - (millis s - loadStarts)))")
  show "wf (measure (\<lambda>(e, loadStarts, s). unat (200020 - (millis s - loadStarts))))"
    by simp
next
  fix e :: env and loadStarts :: ulong and s :: state and x filled s1
  assume x: "x = isLoaded e s" and p: "(filled, s1) = x"
    and c: "\<not> filled \<and> millis s1 - loadStarts < LOAD_TIMEOUT"
  define k where "k = clean_run e (now s) 10"
  have "k \<le> 10" unfolding k_def by (rule clean_run_le)
  moreover have "k \<noteq> 10" and n1: "now s1 = now s + k"
    using x p c unfolding k_def by (simp_all add: isLoaded_eq)
  ultimately have k9: "k \<le> 9" by simp
  have m1: "millis s1 - loadStarts = (millis s - loadStarts) + of_nat k"
    using n1 by (rule millis_shift)
  have m2: "millis (delay 10 s1) - loadStarts = (millis s - loadStarts) + of_nat k + 10"
    using millis_shift[of "delay 10 s1" s "k + 10" loadStarts] n1 by simp
  have "millis s - loadStarts + of_nat k < 200000"
    using c m1 by (simp add: LOAD_TIMEOUT_def)
  from measure_step[OF k9 this]
  show "((e, loadStarts, delay 10 s1), (e, loadStarts, s))
        \<in> measure (\<lambda>(e, loadStarts, s). unat (200020 - (millis s - loadStarts)))"
    by (simp add: m2)
qed

declare wait_base.simps [simp del]

text \<open>What \<open>n\<close> beeps log, and \<open>beep\<close> in closed form (for the proofs).\<close>

definition beep_log :: "nat \<Rightarrow> int \<Rightarrow> int \<Rightarrow> event list" where
  "beep_log n len delayLength =
     concat (replicate n [Tone SPEAKER_PIN 1000 (to_ulong len), Delay (to_ulong (len + delayLength))])"

lemma beep_from_eq:
  "beep_from i many len delayLength s =
     s\<lparr>now := now s + nat (many - i) * to_ulong (len + delayLength),
       trace := trace s @ beep_log (nat (many - i)) len delayLength\<rparr>"
proof (induction i many len delayLength s rule: beep_from.induct)
  case (1 i many len delayLength s)
  show ?case
  proof (cases "i < many")
    case False
    then show ?thesis
      by (subst beep_from.simps) (simp add: beep_log_def)
  next
    case True
    then have n: "nat (many - i) = Suc (nat (many - (i + 1)))" by simp
    let ?s1 = "delay (to_ulong (len + delayLength)) (tone SPEAKER_PIN 1000 (to_ulong len) s)"
    have step: "beep_from i many len delayLength s = beep_from (i + 1) many len delayLength ?s1"
      using True by (subst beep_from.simps) simp
    show ?thesis
      unfolding step "1.IH"[OF True] n
      by (simp add: beep_log_def delay_def emit_def tone_def)
  qed
qed

lemma beep_eq:
  "beep many len delayLength s =
     s\<lparr>now := now s + nat many * to_ulong (len + delayLength),
       trace := trace s @ beep_log (nat many) len delayLength\<rparr>"
  using beep_from_eq[of 0 many len delayLength s] by (simp add: beep_def)

lemma now_beep [simp]: "now (beep many len dl s) = now s + nat many * to_ulong (len + dl)"
  by (simp add: beep_eq)

lemma trace_beep [simp]: "trace (beep many len dl s) = trace s @ beep_log (nat many) len dl"
  by (simp add: beep_eq)

lemma to_ulong_small [simp]: "0 \<le> x \<Longrightarrow> x < 2 ^ 32 \<Longrightarrow> to_ulong x = nat x"
  by (simp add: to_ulong_def)

text \<open>
  Lines 171 and 180 compare the elapsed time with \<^verbatim>\<open>loadTime / 1.5\<close> and
  \<^verbatim>\<open>loadTime * 1.5\<close>: the \<^verbatim>\<open>unsigned long\<close>s are converted to floating point. The
  model computes with exact rationals. For every \<^verbatim>\<open>loadTime\<close> that \<open>load\<close> can measure
  (below 200030, see \<open>load_base_time\<close>) the operands are integers below \<open>2 ^ 24\<close>, which
  single and double precision hold exactly; the product is exact; and the quotient is an
  integer, and then exact, or a third away from the nearest integer, far more than the
  rounding error. So the comparisons with the integer elapsed time agree.
\<close>

definition to_double :: "ulong \<Rightarrow> rat" where
  "to_double w = of_nat (unat w)"

text \<open>
  The second loop, lines 160-163: beep once a second until \<^verbatim>\<open>loadTime\<close> has passed
  again. A pass takes 1130 ms, so for a \<^verbatim>\<open>loadTime\<close> within 1130 of \<open>2 ^ 32\<close> the
  32-bit difference can step over the exit window for ever: the loop is partial.
\<close>

partial_function (option) wait_double :: "ulong \<Rightarrow> ulong \<Rightarrow> state \<Rightarrow> state option" where
  "wait_double loadStarts loadTime s =
    (if millis s - loadStarts < loadTime
     then wait_double loadStarts loadTime (delay 1000 (beep 1 80 50 s))
     else Some s)"

declare wait_double.simps [code]

text \<open>The third loop, lines 171-174, with the main pump on; no poll. It always ends.\<close>

function wait_agitate :: "ulong \<Rightarrow> ulong \<Rightarrow> state \<Rightarrow> state" where
  "wait_agitate loadStarts loadTime s =
    (if to_double (millis s - loadStarts) < to_double loadTime / 1.5
     then wait_agitate loadStarts loadTime (delay 800 (beep 2 50 50 s))
     else s)"
  by pat_completeness auto
termination
proof (relation "measure (\<lambda>(loadStarts, loadTime, s). 2 ^ 32 - unat (millis s - loadStarts))")
  show "wf (measure (\<lambda>(loadStarts, loadTime, s). 2 ^ 32 - unat (millis s - loadStarts)))"
    by simp
next
  fix loadStarts loadTime :: ulong and s :: state
  assume c: "to_double (millis s - loadStarts) < to_double loadTime / 1.5"
  have "unat loadTime < 2 ^ 32"
    using unsigned_less[of loadTime, where 'a = nat] by simp
  then have "(of_nat (unat loadTime) :: rat) < 2 ^ 32"
    by (metis of_nat_less_iff of_nat_numeral of_nat_power)
  with c have "(of_nat (unat (millis s - loadStarts)) :: rat) < 2 ^ 32 / 1.5"
    by (simp add: to_double_def)
  then have "(of_nat (unat (millis s - loadStarts)) :: rat) < of_nat 4000000000"
    by simp
  then have u: "unat (millis s - loadStarts) < 4000000000"
    by (simp only: of_nat_less_iff)
  have "unat (millis (delay 800 (beep 2 50 50 s)) - loadStarts) = unat (millis s - loadStarts) + 1000"
    using elapsed_shift[of "delay 800 (beep 2 50 50 s)" s 1000 loadStarts] u by simp
  with u show "((loadStarts, loadTime, delay 800 (beep 2 50 50 s)), (loadStarts, loadTime, s))
        \<in> measure (\<lambda>(loadStarts, loadTime, s). 2 ^ 32 - unat (millis s - loadStarts))"
    by simp
qed

declare wait_agitate.simps [simp del]

text \<open>
  The fourth loop, lines 180-183: poll again, for at most \<^verbatim>\<open>loadTime * 1.5\<close>. With a
  product beyond \<open>2 ^ 32\<close> and a switch that never closes it does not end.
\<close>

partial_function (option) wait_topup :: "env \<Rightarrow> ulong \<Rightarrow> ulong \<Rightarrow> state \<Rightarrow> state option" where
  "wait_topup e loadStarts loadTime s =
    (let (filled, s1) = isLoaded e s
     in if \<not> filled \<and> to_double (millis s1 - loadStarts) < to_double loadTime * 1.5
        then wait_topup e loadStarts loadTime (delay 400 (beep 1 50 50 s1))
        else Some s1)"

declare wait_topup.simps [code]

section \<open>load, put together\<close>

text \<open>Lines 134-156: up to the measurement of \<^verbatim>\<open>loadTime\<close>, which is returned.\<close>

definition load_base :: "env \<Rightarrow> state \<Rightarrow> fault + ulong \<times> state" where
  "load_base e s =
    (let s = reset 200 s;
         s = beepMessage LOAD_MSG s;
         loadStarts = millis s;
         s = digitalWrite WATER_LOAD_PIN RELAY_MODULE_ON s;
         s = wait_base e loadStarts s;
         (filled, s) = isLoaded e s
     in if \<not> filled \<and> millis s - loadStarts \<ge> LOAD_TIMEOUT
        then Inl (crash FAILED_LOAD_ISSUE s)
        else Inr (millis s - loadStarts, s))"

text \<open>Lines 158-194: the three extrapolated waits and the last reading.\<close>

definition load_extend :: "env \<Rightarrow> ulong \<Rightarrow> state \<Rightarrow> (fault + state) option" where
  "load_extend e loadTime s =
    (case wait_double (millis s) loadTime s of
       None \<Rightarrow> None
     | Some s \<Rightarrow>
        (let s = digitalWrite MAIN_PUMP_PIN RELAY_MODULE_ON s;
             s = wait_agitate (millis s) loadTime s
         in case wait_topup e (millis s) loadTime s of
              None \<Rightarrow> None
            | Some s \<Rightarrow>
               (let (filled, s) = isLoaded e s
                in if \<not> filled
                   then Some (Inl (crash FAILED_TOP_UP_ISSUE s))
                   else Some (Inr (delay 1000 (digitalWrite WATER_LOAD_PIN RELAY_MODULE_OFF s))))))"

definition load :: "env \<Rightarrow> state \<Rightarrow> (fault + state) option" where
  "load e s =
    (case load_base e s of
       Inl f \<Rightarrow> Some (Inl f)
     | Inr (loadTime, s) \<Rightarrow> load_extend e loadTime s)"

section \<open>cycle\<close>

text \<open>
  \<^verbatim>\<open>void cycle(unsigned long washTime, bool soap, long temperature)\<close>, lines 199-243.
  One pass of the wash loop is \<open>wash_body\<close>: the heater branch (lines 222-233,
  \<open>heat_step\<close>) and the indicator (lines 236-239, \<open>blink\<close>). The loop's variables
  \<^verbatim>\<open>Vo\<close> and \<^verbatim>\<open>washStarts\<close> are passed along. The loop need not end (a reading
  that stays equal to the target resets \<^verbatim>\<open>washStarts\<close> on every pass), so \<open>wash_loop\<close>
  and \<open>cycle\<close> return \<open>None\<close> for a run that never returns.
\<close>

definition heat_step :: "env \<Rightarrow> int \<Rightarrow> ulong \<Rightarrow> int \<Rightarrow> ulong \<Rightarrow> state
    \<Rightarrow> fault + int \<times> ulong \<times> state" where
  "heat_step e temperature cycleStarts Vo washStarts s =
    (if Vo > temperature
     then Inr (Vo, washStarts, digitalWrite HEATER_PIN LOW s)
     else (let (Vo, s) = analogRead e TEMP_SENSOR s
           in if Vo < temperature \<and> millis s - cycleStarts > HEATER_TIMEOUT
              then Inl (crash FAILED_REACH_TEMP s)
              else Inr (Vo, millis s, beep 1 150 50 s)))"

definition blink :: "state \<Rightarrow> state" where
  "blink s =
    (let s = delay 1000 s;
         s = digitalWrite LED_PIN LED_ON s;
         s = delay 1000 s;
         s = digitalWrite LED_PIN LED_OFF s
     in s)"

definition wash_body :: "env \<Rightarrow> int \<Rightarrow> ulong \<Rightarrow> int \<Rightarrow> ulong \<Rightarrow> state
    \<Rightarrow> fault + int \<times> ulong \<times> state" where
  "wash_body e temperature cycleStarts Vo washStarts s =
    (case heat_step e temperature cycleStarts Vo washStarts s of
       Inl f \<Rightarrow> Inl f
     | Inr (Vo, washStarts, s) \<Rightarrow> Inr (Vo, washStarts, blink s))"

partial_function (option) wash_loop ::
    "env \<Rightarrow> ulong \<Rightarrow> int \<Rightarrow> ulong \<Rightarrow> int \<Rightarrow> ulong \<Rightarrow> state \<Rightarrow> (fault + state) option" where
  "wash_loop e washTime temperature cycleStarts Vo washStarts s =
    (if washTime * 60 * 1000 > millis s - washStarts
     then (case wash_body e temperature cycleStarts Vo washStarts s of
             Inl f \<Rightarrow> Some (Inl f)
           | Inr (Vo, washStarts, s) \<Rightarrow>
               wash_loop e washTime temperature cycleStarts Vo washStarts s)
     else Some (Inr s))"

declare wash_loop.simps [code]

text \<open>
  Lines 203-216: the soap dose and the one temperature check that may switch the heater
  on. The reading is returned: it is the loop's first \<^verbatim>\<open>Vo\<close>.
\<close>

definition cycle_prepare :: "env \<Rightarrow> bool \<Rightarrow> int \<Rightarrow> state \<Rightarrow> int \<times> state" where
  "cycle_prepare e soap temperature s =
    (let s = (if soap
              then delay 1000 (digitalWrite SOAP_PIN RELAY_MODULE_OFF
                     (delay 200 (digitalWrite SOAP_PIN RELAY_MODULE_ON s)))
              else s);
         (Vo, s) = analogRead e TEMP_SENSOR s;
         s = (if temperature > 0 \<and> Vo < temperature
              then delay 1000 (digitalWrite HEATER_PIN HIGH s)
              else s)
     in (Vo, s))"

definition cycle :: "env \<Rightarrow> ulong \<Rightarrow> bool \<Rightarrow> int \<Rightarrow> state \<Rightarrow> (fault + state) option" where
  "cycle e washTime soap temperature s =
    (case load e s of
       None \<Rightarrow> None
     | Some (Inl f) \<Rightarrow> Some (Inl f)
     | Some (Inr s) \<Rightarrow>
        (let (Vo, s) = cycle_prepare e soap temperature s;
             cycleStarts = millis s;
             washStarts = millis s
         in case wash_loop e washTime temperature cycleStarts Vo washStarts s of
              None \<Rightarrow> None
            | Some (Inl f) \<Rightarrow> Some (Inl f)
            | Some (Inr s) \<Rightarrow> Some (drain e s)))"

section \<open>The vocabulary of the properties\<close>

text \<open>
  How often a log switches the heater on, and the state a run of \<open>load\<close>, \<open>wash_loop\<close>,
  \<open>drain\<close> or \<open>cycle\<close> ends in, crashed or not.
\<close>

definition heater_ons :: "event list \<Rightarrow> nat" where
  "heater_ons tr = length (filter (\<lambda>ev. ev = DigitalWrite HEATER_PIN HIGH) tr)"

definition final :: "fault + state \<Rightarrow> state" where
  "final r = (case r of Inl (issue, s) \<Rightarrow> s | Inr s \<Rightarrow> s)"

text \<open>
  The states the waiting loops of \<open>load\<close> reach: after \<open>n\<close> polls of an empty tank in
  the first loop, and after \<open>n\<close> passes of the second, of the third and (with an empty
  tank) of the fourth.
\<close>

definition dry_polls :: "nat \<Rightarrow> state \<Rightarrow> state" where
  "dry_polls n s = s\<lparr>now := now s + 10 * n,
      trace := trace s @ concat (replicate n [DigitalRead WATER_DISABLED_PIN, Delay 10])\<rparr>"

definition doubled :: "nat \<Rightarrow> state \<Rightarrow> state" where
  "doubled n s = s\<lparr>now := now s + 1130 * n,
      trace := trace s @ concat (replicate n [Tone SPEAKER_PIN 1000 80, Delay 130, Delay 1000])\<rparr>"

definition agitated :: "nat \<Rightarrow> state \<Rightarrow> state" where
  "agitated n s = s\<lparr>now := now s + 1000 * n,
      trace := trace s @ concat (replicate n
        [Tone SPEAKER_PIN 1000 50, Delay 100, Tone SPEAKER_PIN 1000 50, Delay 100, Delay 800])\<rparr>"

definition topped :: "nat \<Rightarrow> state \<Rightarrow> state" where
  "topped n s = s\<lparr>now := now s + 500 * n,
      trace := trace s @ concat (replicate n
        [DigitalRead WATER_DISABLED_PIN, Tone SPEAKER_PIN 1000 50, Delay 100, Delay 400])\<rparr>"

section \<open>Inputs for the examples\<close>

text \<open>
  The state at power-up, a tank that never fills (the level line stays high) and a tank
  that is always full. The thermistor reads 0 in both.
\<close>

definition power_up :: state where
  "power_up = \<lparr>now = 0, trace = []\<rparr>"

definition dry :: env where
  "dry = \<lparr>water_disabled = (\<lambda>t. True), temp_sensor = (\<lambda>t. 0)\<rparr>"

definition wet :: env where
  "wet = \<lparr>water_disabled = (\<lambda>t. False), temp_sensor = (\<lambda>t. 0)\<rparr>"

text \<open>A full tank whose thermistor reads exactly 950, the target of the wash program.\<close>

definition at_target :: env where
  "at_target = \<lparr>water_disabled = (\<lambda>t. False), temp_sensor = (\<lambda>t. 950)\<rparr>"

text \<open>
  A tank that fills exactly 200000 ms after the valve opens (at power-up the valve opens
  at 2940), and one that is full at the base stage and reads empty from 3000 on.
\<close>

definition late :: env where
  "late = \<lparr>water_disabled = (\<lambda>t. t < 202940), temp_sensor = (\<lambda>t. 0)\<rparr>"

definition base_only :: env where
  "base_only = \<lparr>water_disabled = (\<lambda>t. 3000 \<le> t), temp_sensor = (\<lambda>t. 0)\<rparr>"

text \<open>A tank that fills 5000 ms after the valve opens and stays full.\<close>

definition fills_at_5000 :: env where
  "fills_at_5000 = \<lparr>water_disabled = (\<lambda>t. t < 7940), temp_sensor = (\<lambda>t. 0)\<rparr>"

section \<open>reset: the order\<close>

lemma reset_eq:
  "reset n s =
     s\<lparr>now := now s + 6 * to_ulong n,
       trace := trace s @
         [DigitalWrite HEATER_PIN LOW, Delay (to_ulong n),
          DigitalWrite WATER_LOAD_PIN RELAY_MODULE_OFF, Delay (to_ulong n),
          DigitalWrite DRAIN_PIN RELAY_MODULE_OFF, Delay (to_ulong n),
          DigitalWrite SOAP_PIN RELAY_MODULE_OFF, Delay (to_ulong n),
          DigitalWrite LED_PIN LED_OFF, Delay (to_ulong n),
          DigitalWrite MAIN_PUMP_PIN RELAY_MODULE_OFF, Delay (to_ulong n)]\<rparr>"
  by (simp add: reset_def delay_def digitalWrite_def emit_def)

text \<open>
  C9. \<open>reset stabiliseTime\<close> switches off, in this order, the heater, the intake valve,
  the drain pump, the soap dispenser, the indicator and the main pump: the heater first,
  the main pump last. After each of the six writes it waits \<open>stabiliseTime\<close>
  milliseconds, and it does nothing else.
\<close>

theorem reset_order:
  assumes "0 \<le> stabiliseTime" and "stabiliseTime < 2 ^ 32"
  shows "trace (reset stabiliseTime s) = trace s @
         [DigitalWrite HEATER_PIN LOW, Delay (nat stabiliseTime),
          DigitalWrite WATER_LOAD_PIN RELAY_MODULE_OFF, Delay (nat stabiliseTime),
          DigitalWrite DRAIN_PIN RELAY_MODULE_OFF, Delay (nat stabiliseTime),
          DigitalWrite SOAP_PIN RELAY_MODULE_OFF, Delay (nat stabiliseTime),
          DigitalWrite LED_PIN LED_OFF, Delay (nat stabiliseTime),
          DigitalWrite MAIN_PUMP_PIN RELAY_MODULE_OFF, Delay (nat stabiliseTime)]
       \<and> now (reset stabiliseTime s) = now s + 6 * nat stabiliseTime"
  using assms by (simp add: reset_eq)

theorem reset_order_witness:
  "trace (reset 500 power_up) =
         [DigitalWrite HEATER_PIN LOW, Delay 500,
          DigitalWrite WATER_LOAD_PIN HIGH, Delay 500,
          DigitalWrite DRAIN_PIN HIGH, Delay 500,
          DigitalWrite SOAP_PIN HIGH, Delay 500,
          DigitalWrite LED_PIN HIGH, Delay 500,
          DigitalWrite MAIN_PUMP_PIN HIGH, Delay 500]
       \<and> now (reset 500 power_up) = 3000"
  using reset_order[of 500 power_up] by (simp add: power_up_def)

section \<open>The debounced level read\<close>

lemma clean_run_first:
  "k < n \<Longrightarrow> water_disabled e (t + k) \<Longrightarrow> (\<forall>j<k. \<not> water_disabled e (t + j)) \<Longrightarrow>
   clean_run e t n = k"
proof (induction n arbitrary: t k)
  case 0
  then show ?case by simp
next
  case (Suc n)
  show ?case
  proof (cases k)
    case 0
    with Suc.prems show ?thesis by simp
  next
    case (Suc j)
    have a: "j < n" using Suc.prems(1) Suc by simp
    have b: "water_disabled e (Suc t + j)" using Suc.prems(2) Suc by simp
    have c: "\<forall>i<j. \<not> water_disabled e (Suc t + i)"
    proof (intro allI impI)
      fix i assume "i < j"
      then have "Suc i < k" using Suc by simp
      with Suc.prems(3) have "\<not> water_disabled e (t + Suc i)" by blast
      then show "\<not> water_disabled e (Suc t + i)" by simp
    qed
    have d: "\<not> water_disabled e t"
      using Suc.prems(3) Suc by (metis add.right_neutral zero_less_Suc)
    from Suc.IH[OF a b c] d Suc show ?thesis by simp
  qed
qed

lemma isLoaded_dry: "water_disabled e (now s) \<Longrightarrow> isLoaded e s = (False, emit (DigitalRead WATER_DISABLED_PIN) s)"
  using clean_run_first[of 0 10 e "now s"]
  by (simp add: isLoaded_eq poll_log_def emit_def)

lemma isLoaded_wet:
  "\<forall>k<10. \<not> water_disabled e (now s + k) \<Longrightarrow>
   isLoaded e s = (True, s\<lparr>now := now s + 10, trace := trace s @ poll_log 10 10\<rparr>)"
  using clean_run_full[of e "now s" 10] by (simp add: isLoaded_eq)

text \<open>
  C1. \<open>isLoaded\<close> samples the level line at the current time and then once a
  millisecond, ten samples at most. It is true exactly when all ten read "water". At the
  first sample that does not, it returns false at once: no further sample is taken and no
  further millisecond passes. So making any one of the ten samples read "no water", in a
  window that is otherwise arbitrary, makes the result false.
\<close>

theorem isLoaded_debounce:
  "fst (isLoaded e s) = (\<forall>k<10. \<not> water_disabled e (now s + k))
   \<and> (\<forall>k<10. water_disabled e (now s + k) \<and> (\<forall>j<k. \<not> water_disabled e (now s + j)) \<longrightarrow>
         isLoaded e s =
           (False, s\<lparr>now := now s + k,
                     trace := trace s @ concat (replicate k [DigitalRead WATER_DISABLED_PIN, Delay 1])
                                      @ [DigitalRead WATER_DISABLED_PIN]\<rparr>))
   \<and> ((\<forall>k<10. \<not> water_disabled e (now s + k)) \<longrightarrow>
         isLoaded e s =
           (True, s\<lparr>now := now s + 10,
                    trace := trace s @ concat (replicate 10 [DigitalRead WATER_DISABLED_PIN, Delay 1])\<rparr>))
   \<and> (\<forall>k<10. \<not> fst (isLoaded (e\<lparr>water_disabled := (water_disabled e)(now s + k := True)\<rparr>) s))"
proof (intro conjI allI impI)
  show "fst (isLoaded e s) = (\<forall>k<10. \<not> water_disabled e (now s + k))"
    using clean_run_full[of e "now s" 10] by (simp add: isLoaded_eq)
next
  fix k :: nat
  assume k: "k < 10"
    and h: "water_disabled e (now s + k) \<and> (\<forall>j<k. \<not> water_disabled e (now s + j))"
  then have "clean_run e (now s) 10 = k"
    using clean_run_first[of k 10 e "now s"] by simp
  with k show "isLoaded e s =
           (False, s\<lparr>now := now s + k,
                     trace := trace s @ concat (replicate k [DigitalRead WATER_DISABLED_PIN, Delay 1])
                                      @ [DigitalRead WATER_DISABLED_PIN]\<rparr>)"
    by (simp add: isLoaded_eq poll_log_def)
next
  assume "\<forall>k<10. \<not> water_disabled e (now s + k)"
  then show "isLoaded e s =
           (True, s\<lparr>now := now s + 10,
                    trace := trace s @ concat (replicate 10 [DigitalRead WATER_DISABLED_PIN, Delay 1])\<rparr>)"
    by (simp add: isLoaded_wet poll_log_def)
next
  fix k :: nat
  assume k: "k < 10"
  let ?e = "e\<lparr>water_disabled := (water_disabled e)(now s + k := True)\<rparr>"
  have "\<not> (\<forall>j<10. \<not> water_disabled ?e (now s + j))"
    using k by auto
  then show "\<not> fst (isLoaded ?e s)"
    using clean_run_full[of ?e "now s" 10] by (simp add: isLoaded_eq)
qed

theorem isLoaded_debounce_witness:
  "fst (isLoaded wet power_up)
   \<and> \<not> fst (isLoaded (wet\<lparr>water_disabled := (water_disabled wet)(3 := True)\<rparr>) power_up)
   \<and> isLoaded (wet\<lparr>water_disabled := (water_disabled wet)(3 := True)\<rparr>) power_up =
       (False, \<lparr>now = 3, trace =
          [DigitalRead WATER_DISABLED_PIN, Delay 1, DigitalRead WATER_DISABLED_PIN, Delay 1,
           DigitalRead WATER_DISABLED_PIN, Delay 1, DigitalRead WATER_DISABLED_PIN]\<rparr>)"
proof -
  let ?g = "wet\<lparr>water_disabled := (water_disabled wet)(3 := True)\<rparr>"
  have a: "fst (isLoaded wet power_up)"
    using isLoaded_debounce[of wet power_up] by (simp add: wet_def)
  have "\<forall>k<10. \<not> fst (isLoaded (wet\<lparr>water_disabled := (water_disabled wet)(now power_up + k := True)\<rparr>) power_up)"
    using isLoaded_debounce[of wet power_up] by blast
  then have b: "\<not> fst (isLoaded ?g power_up)"
    by (auto simp: power_up_def dest: spec[of _ 3])
  have h: "water_disabled ?g (now power_up + 3) \<and> (\<forall>j<3. \<not> water_disabled ?g (now power_up + j))"
    by (simp add: wet_def power_up_def)
  have "\<forall>k<10. water_disabled ?g (now power_up + k) \<and> (\<forall>j<k. \<not> water_disabled ?g (now power_up + j)) \<longrightarrow>
         isLoaded ?g power_up =
           (False, power_up\<lparr>now := now power_up + k,
                     trace := trace power_up @ concat (replicate k [DigitalRead WATER_DISABLED_PIN, Delay 1])
                                      @ [DigitalRead WATER_DISABLED_PIN]\<rparr>)"
    using isLoaded_debounce[of ?g power_up] by blast
  then have "isLoaded ?g power_up =
           (False, power_up\<lparr>now := now power_up + 3,
                     trace := trace power_up @ concat (replicate 3 [DigitalRead WATER_DISABLED_PIN, Delay 1])
                                      @ [DigitalRead WATER_DISABLED_PIN]\<rparr>)"
    using h by (auto dest: spec[of _ 3])
  then have c: "isLoaded ?g power_up =
       (False, \<lparr>now = 3, trace =
          [DigitalRead WATER_DISABLED_PIN, Delay 1, DigitalRead WATER_DISABLED_PIN, Delay 1,
           DigitalRead WATER_DISABLED_PIN, Delay 1, DigitalRead WATER_DISABLED_PIN]\<rparr>)"
    by (simp add: power_up_def numeral_3_eq_3)
  from a b c show ?thesis by simp
qed

section \<open>drain: the sequence\<close>

lemma beep_log_0 [simp]: "beep_log 0 len dl = []"
  by (simp add: beep_log_def)

lemma beep_log_Suc [simp]:
  "beep_log (Suc n) len dl =
     Tone SPEAKER_PIN 1000 (to_ulong len) # Delay (to_ulong (len + dl)) # beep_log n len dl"
  by (simp add: beep_log_def)

lemma beep_log_1: "beep_log 1 len dl = [Tone SPEAKER_PIN 1000 (to_ulong len), Delay (to_ulong (len + dl))]"
  by simp

lemma beep_log_2: "beep_log 2 len dl =
   [Tone SPEAKER_PIN 1000 (to_ulong len), Delay (to_ulong (len + dl)),
    Tone SPEAKER_PIN 1000 (to_ulong len), Delay (to_ulong (len + dl))]"
  by (simp add: numeral_2_eq_2)

lemma beep_log_3: "beep_log 3 len dl =
   [Tone SPEAKER_PIN 1000 (to_ulong len), Delay (to_ulong (len + dl)),
    Tone SPEAKER_PIN 1000 (to_ulong len), Delay (to_ulong (len + dl)),
    Tone SPEAKER_PIN 1000 (to_ulong len), Delay (to_ulong (len + dl))]"
  by (simp add: numeral_3_eq_3)

lemma beep_log_4: "beep_log 4 len dl =
   [Tone SPEAKER_PIN 1000 (to_ulong len), Delay (to_ulong (len + dl)),
    Tone SPEAKER_PIN 1000 (to_ulong len), Delay (to_ulong (len + dl)),
    Tone SPEAKER_PIN 1000 (to_ulong len), Delay (to_ulong (len + dl)),
    Tone SPEAKER_PIN 1000 (to_ulong len), Delay (to_ulong (len + dl))]"
proof -
  have "(4::nat) = Suc (Suc (Suc (Suc 0)))" by simp
  then show ?thesis by (simp only: beep_log_Suc beep_log_0)
qed

lemma drain_pumped:
  "digitalWrite DRAIN_PIN RELAY_MODULE_OFF (delay DRAIN_TIME (beepMessage DRAIN_MSG
      (digitalWrite DRAIN_PIN RELAY_MODULE_ON (reset 1000 s)))) =
   s\<lparr>now := now s + 29940,
     trace := trace s @
       [DigitalWrite HEATER_PIN LOW, Delay 1000,
        DigitalWrite WATER_LOAD_PIN RELAY_MODULE_OFF, Delay 1000,
        DigitalWrite DRAIN_PIN RELAY_MODULE_OFF, Delay 1000,
        DigitalWrite SOAP_PIN RELAY_MODULE_OFF, Delay 1000,
        DigitalWrite LED_PIN LED_OFF, Delay 1000,
        DigitalWrite MAIN_PUMP_PIN RELAY_MODULE_OFF, Delay 1000,
        DigitalWrite DRAIN_PIN RELAY_MODULE_ON,
        Tone SPEAKER_PIN 1000 350, Delay 570, Tone SPEAKER_PIN 1000 350, Delay 570,
        Tone SPEAKER_PIN 1000 150, Delay 200, Tone SPEAKER_PIN 1000 150, Delay 200,
        Tone SPEAKER_PIN 1000 150, Delay 200, Tone SPEAKER_PIN 1000 150, Delay 200,
        Delay 22000,
        DigitalWrite DRAIN_PIN RELAY_MODULE_OFF]\<rparr>"
  by (simp add: reset_eq beepMessage_def DRAIN_MSG_def DRAIN_TIME_def beep_eq beep_log_2 beep_log_4
      delay_def digitalWrite_def emit_def)

text \<open>
  C7. \<open>drain\<close> does \<open>reset 1000\<close>, switches the drain pump on, beeps the drain message,
  waits \<open>DRAIN_TIME\<close> = 22000 ms and switches the drain pump off: \<open>s1\<close> below is the
  state then, 29940 ms after the call. It then polls the level switch once. If the poll
  reads "water" on all ten samples, \<open>drain\<close> crashes with \<open>DRAIN_ISSUE\<close> = 2; if not, it
  returns the state the poll left, in which nothing but the poll's own reads follows the
  switching off of the pump: there is no second attempt.
\<close>

theorem drain_sequence:
  "(let s1 = s\<lparr>now := now s + 29940,
              trace := trace s @
       [DigitalWrite HEATER_PIN LOW, Delay 1000,
        DigitalWrite WATER_LOAD_PIN RELAY_MODULE_OFF, Delay 1000,
        DigitalWrite DRAIN_PIN RELAY_MODULE_OFF, Delay 1000,
        DigitalWrite SOAP_PIN RELAY_MODULE_OFF, Delay 1000,
        DigitalWrite LED_PIN LED_OFF, Delay 1000,
        DigitalWrite MAIN_PUMP_PIN RELAY_MODULE_OFF, Delay 1000,
        DigitalWrite DRAIN_PIN RELAY_MODULE_ON,
        Tone SPEAKER_PIN 1000 350, Delay 570, Tone SPEAKER_PIN 1000 350, Delay 570,
        Tone SPEAKER_PIN 1000 150, Delay 200, Tone SPEAKER_PIN 1000 150, Delay 200,
        Tone SPEAKER_PIN 1000 150, Delay 200, Tone SPEAKER_PIN 1000 150, Delay 200,
        Delay DRAIN_TIME,
        DigitalWrite DRAIN_PIN RELAY_MODULE_OFF]\<rparr>
    in drain e s =
         (if fst (isLoaded e s1)
          then Inl (DRAIN_ISSUE, reset 500 (snd (isLoaded e s1)))
          else Inr (snd (isLoaded e s1)))
       \<and> (\<exists>k\<le>10. trace (snd (isLoaded e s1)) =
              trace s1 @ concat (replicate k [DigitalRead WATER_DISABLED_PIN, Delay 1])
                @ (if k < 10 then [DigitalRead WATER_DISABLED_PIN] else [])))
   \<and> ((\<exists>f. drain e s = Inl f) = (\<forall>k<10. \<not> water_disabled e (now s + 29940 + k)))
   \<and> DRAIN_TIME = 22000 \<and> DRAIN_ISSUE = 2"
proof -
  define s1 where "s1 = digitalWrite DRAIN_PIN RELAY_MODULE_OFF (delay DRAIN_TIME
      (beepMessage DRAIN_MSG (digitalWrite DRAIN_PIN RELAY_MODULE_ON (reset 1000 s))))"
  have d: "drain e s =
         (if fst (isLoaded e s1)
          then Inl (DRAIN_ISSUE, reset 500 (snd (isLoaded e s1)))
          else Inr (snd (isLoaded e s1)))"
    unfolding s1_def by (simp add: drain_def Let_def crash_def split: prod.splits)
  have n: "now s1 = now s + 29940"
    unfolding s1_def drain_pumped by simp
  have p: "\<exists>k\<le>10. trace (snd (isLoaded e s1)) =
              trace s1 @ concat (replicate k [DigitalRead WATER_DISABLED_PIN, Delay 1])
                @ (if k < 10 then [DigitalRead WATER_DISABLED_PIN] else [])"
    using clean_run_le[of e "now s1" 10]
    by (intro exI[of _ "clean_run e (now s1) 10"]) (simp add: isLoaded_eq poll_log_def)
  have "(\<exists>f. drain e s = Inl f) = fst (isLoaded e s1)"
    by (simp add: d)
  also have "\<dots> = (\<forall>k<10. \<not> water_disabled e (now s1 + k))"
    using clean_run_full[of e "now s1" 10] by (simp add: isLoaded_eq)
  finally have f: "(\<exists>f. drain e s = Inl f) = (\<forall>k<10. \<not> water_disabled e (now s + 29940 + k))"
    by (simp only: n)
  have s1: "s1 = s\<lparr>now := now s + 29940,
              trace := trace s @
       [DigitalWrite HEATER_PIN LOW, Delay 1000,
        DigitalWrite WATER_LOAD_PIN RELAY_MODULE_OFF, Delay 1000,
        DigitalWrite DRAIN_PIN RELAY_MODULE_OFF, Delay 1000,
        DigitalWrite SOAP_PIN RELAY_MODULE_OFF, Delay 1000,
        DigitalWrite LED_PIN LED_OFF, Delay 1000,
        DigitalWrite MAIN_PUMP_PIN RELAY_MODULE_OFF, Delay 1000,
        DigitalWrite DRAIN_PIN RELAY_MODULE_ON,
        Tone SPEAKER_PIN 1000 350, Delay 570, Tone SPEAKER_PIN 1000 350, Delay 570,
        Tone SPEAKER_PIN 1000 150, Delay 200, Tone SPEAKER_PIN 1000 150, Delay 200,
        Tone SPEAKER_PIN 1000 150, Delay 200, Tone SPEAKER_PIN 1000 150, Delay 200,
        Delay DRAIN_TIME,
        DigitalWrite DRAIN_PIN RELAY_MODULE_OFF]\<rparr>"
    unfolding s1_def drain_pumped by (simp add: DRAIN_TIME_def)
  show ?thesis
    unfolding Let_def s1[symmetric]
    using d p f by (simp add: DRAIN_TIME_def DRAIN_ISSUE_def)
qed

theorem drain_sequence_witness:
  "(\<exists>s'. drain wet power_up = Inl (2, s')) \<and> (\<exists>s'. drain dry power_up = Inr s' \<and> now s' = 29940)"
proof -
  have w: "\<forall>k<10. \<not> water_disabled wet (29940 + k)" by (simp add: wet_def)
  have d: "\<not> (\<forall>k<10. \<not> water_disabled dry (29940 + k))"
    by (auto simp: dry_def intro: exI[of _ 0])
  have "\<exists>f. drain wet power_up = Inl f"
    using drain_sequence[of power_up wet] w by (simp add: power_up_def)
  then have a: "\<exists>s'. drain wet power_up = Inl (2, s')"
    using drain_sequence[of power_up wet] by (auto simp: Let_def split: if_splits)
  have "\<not> (\<exists>f. drain dry power_up = Inl f)"
    using drain_sequence[of power_up dry] d by (simp add: power_up_def)
  then have b: "\<exists>s'. drain dry power_up = Inr s' \<and> now s' = 29940"
    using drain_sequence[of power_up dry]
    by (auto simp: Let_def power_up_def dry_def isLoaded_dry split: if_splits)
  from a b show ?thesis by simp
qed

section \<open>The first wait of load\<close>

text \<open>
  While the level line reads "no water" a poll returns at its first sample and takes no
  time, so the polls are 10 ms apart: \<open>n\<close> of them lead from \<open>s\<close> to \<open>dry_polls n s\<close>.
\<close>

lemma elapsed_lt: "(millis s - ls < w) = (unat (millis s - ls) < unat w)"
  by (rule word_less_nat_alt)

lemma wait_base_dry_run:
  "(\<forall>j<n. water_disabled e (now s + 10 * j)) \<Longrightarrow>
   unat (millis s - ls) + 10 * n < 200010 \<Longrightarrow>
   wait_base e ls s = wait_base e ls (dry_polls n s)"
proof (induction n arbitrary: s)
  case 0
  show ?case by (simp add: dry_polls_def)
next
  case (Suc n)
  have wd: "water_disabled e (now s)"
    using Suc.prems(1) by (metis add.right_neutral mult_zero_right zero_less_Suc)
  let ?s1 = "emit (DigitalRead WATER_DISABLED_PIN) s"
  have el: "unat (millis ?s1 - ls) < 200000"
    using Suc.prems(2) by (simp add: millis_def emit_def)
  have step: "wait_base e ls s = wait_base e ls (delay 10 ?s1)"
    using el by (subst wait_base.simps) (simp add: isLoaded_dry[OF wd] LOAD_TIMEOUT_def elapsed_lt)
  have a: "\<forall>j<n. water_disabled e (now (delay 10 ?s1) + 10 * j)"
  proof (intro allI impI)
    fix j assume "j < n"
    then have "Suc j < Suc n" by simp
    with Suc.prems(1) have "water_disabled e (now s + 10 * Suc j)" by blast
    then show "water_disabled e (now (delay 10 ?s1) + 10 * j)" by (simp add: add.assoc)
  qed
  have "unat (millis (delay 10 ?s1) - ls) = unat (millis s - ls) + 10"
    using elapsed_shift[of "delay 10 ?s1" s 10 ls] Suc.prems(2) by simp
  then have b: "unat (millis (delay 10 ?s1) - ls) + 10 * n < 200010"
    using Suc.prems(2) by simp
  have c: "dry_polls n (delay 10 ?s1) = dry_polls (Suc n) s"
    by (simp add: dry_polls_def delay_def emit_def)
  show ?case
    unfolding step Suc.IH[OF a b] c ..
qed

lemma isLoaded_now:
  "now (snd (isLoaded e s)) = now s + clean_run e (now s) 10"
  by (simp add: isLoaded_eq)

lemma isLoaded_now_le: "now (snd (isLoaded e s)) \<le> now s + 10"
  using clean_run_le[of e "now s" 10] by (simp add: isLoaded_eq)

lemma wait_base_exit_wet:
  "\<forall>k<10. \<not> water_disabled e (now s + k) \<Longrightarrow>
   wait_base e ls s = s\<lparr>now := now s + 10, trace := trace s @ poll_log 10 10\<rparr>"
  by (subst wait_base.simps) (simp add: isLoaded_wet)

lemma millis_emit [simp]: "millis (emit ev s) = millis s"
  by (simp add: millis_def)

lemma millis_digitalWrite [simp]: "millis (digitalWrite p v s) = millis s"
  by (simp add: millis_def)

lemma wait_base_exit_timeout:
  "water_disabled e (now s) \<Longrightarrow> 200000 \<le> unat (millis s - ls) \<Longrightarrow>
   wait_base e ls s = emit (DigitalRead WATER_DISABLED_PIN) s"
  by (subst wait_base.simps) (simp add: isLoaded_dry LOAD_TIMEOUT_def elapsed_lt)

lemma wait_base_bound:
  "unat (millis s - ls) < 200010 \<Longrightarrow> unat (millis (wait_base e ls s) - ls) < 200020"
proof (induction e ls s rule: wait_base.induct)
  case (1 e ls s)
  define k where "k = clean_run e (now s) 10"
  define s1 where "s1 = snd (isLoaded e s)"
  have k: "k \<le> 10" unfolding k_def by (rule clean_run_le)
  have n1: "now s1 = now s + k" unfolding s1_def k_def by (rule isLoaded_now)
  have il: "isLoaded e s = (k = 10, s1)"
    unfolding s1_def k_def by (simp add: isLoaded_eq)
  have e1: "unat (millis s1 - ls) = unat (millis s - ls) + k"
    using elapsed_shift[OF n1, of ls] k "1.prems" by simp
  show ?case
  proof (cases "k \<noteq> 10 \<and> millis s1 - ls < LOAD_TIMEOUT")
    case True
    then have lt: "unat (millis s1 - ls) < 200000"
      by (simp add: elapsed_lt LOAD_TIMEOUT_def)
    have "unat (millis (delay 10 s1) - ls) = unat (millis s1 - ls) + 10"
      using elapsed_shift[of "delay 10 s1" s1 10 ls] lt by simp
    with lt have p: "unat (millis (delay 10 s1) - ls) < 200010" by simp
    have step: "wait_base e ls s = wait_base e ls (delay 10 s1)"
      using True by (subst wait_base.simps) (simp add: il)
    show ?thesis
      unfolding step
      using "1.IH"[of "isLoaded e s" "k = 10" s1] True p by (simp add: il)
  next
    case False
    then have "wait_base e ls s = s1"
      by (subst wait_base.simps) (auto simp: il)
    with e1 k "1.prems" show ?thesis by simp
  qed
qed

lemma load_base_time:
  assumes "load_base e s = Inr (loadTime, s')"
  shows "unat loadTime < 200030"
proof -
  define s0 where "s0 = digitalWrite WATER_LOAD_PIN RELAY_MODULE_ON (beepMessage LOAD_MSG (reset 200 s))"
  define s1 where "s1 = wait_base e (millis s0) s0"
  define s2 where "s2 = snd (isLoaded e s1)"
  have ms: "millis (beepMessage LOAD_MSG (reset 200 s)) = millis s0"
    unfolding s0_def by (simp add: millis_def)
  have "loadTime = millis s2 - millis s0"
    using assms unfolding load_base_def Let_def ms s0_def[symmetric] s1_def[symmetric] s2_def
    by (auto split: prod.splits if_splits)
  moreover have "unat (millis s1 - millis s0) < 200020"
    unfolding s1_def by (rule wait_base_bound) simp
  moreover have "now s2 = now s1 + clean_run e (now s1) 10"
    unfolding s2_def by (rule isLoaded_now)
  ultimately show ?thesis
    using elapsed_shift[of s2 s1 "clean_run e (now s1) 10" "millis s0"] clean_run_le[of e "now s1" 10]
    by simp
qed

section \<open>The extrapolated waits of load\<close>

text \<open>The two floating-point comparisons, over the naturals; then each loop in closed form.\<close>

lemma agitate_cond: "(to_double a < to_double b / 1.5) = (3 * unat a < 2 * unat b)"
proof -
  have "(to_double a < to_double b / 1.5) = ((of_nat (3 * unat a) :: rat) < of_nat (2 * unat b))"
    by (simp add: to_double_def field_simps)
  then show ?thesis by (simp only: of_nat_less_iff)
qed

lemma topup_cond: "(to_double a < to_double b * 1.5) = (2 * unat a < 3 * unat b)"
proof -
  have "(to_double a < to_double b * 1.5) = ((of_nat (2 * unat a) :: rat) < of_nat (3 * unat b))"
    by (simp add: to_double_def field_simps)
  then show ?thesis by (simp only: of_nat_less_iff)
qed

lemma wait_double_run:
  "unat loadTime + 1130 < 2 ^ 32 \<Longrightarrow>
   n = (unat loadTime + 1129 - unat (millis s - ls)) div 1130 \<Longrightarrow>
   wait_double ls loadTime s = Some (doubled n s)"
proof (induction n arbitrary: s)
  case 0
  then have "\<not> unat (millis s - ls) < unat loadTime" by simp
  then show ?case
    by (subst wait_double.simps) (simp add: elapsed_lt doubled_def)
next
  case (Suc n)
  let ?s1 = "delay 1000 (beep 1 80 50 s)"
  have lt: "unat (millis s - ls) < unat loadTime"
    using Suc.prems(2) by (cases "unat (millis s - ls) < unat loadTime") simp_all
  have e1: "unat (millis ?s1 - ls) = unat (millis s - ls) + 1130"
    using elapsed_shift[of ?s1 s 1130 ls] lt Suc.prems(1) by simp
  have n: "n = (unat loadTime + 1129 - unat (millis ?s1 - ls)) div 1130"
    using Suc.prems(2) lt unfolding e1 by simp
  have step: "wait_double ls loadTime s = wait_double ls loadTime ?s1"
    using lt by (subst wait_double.simps) (simp add: elapsed_lt)
  have c: "doubled n ?s1 = doubled (Suc n) s"
    by (simp add: doubled_def delay_def emit_def beep_eq beep_log_1)
  show ?case
    unfolding step Suc.IH[OF Suc.prems(1) n] c ..
qed

lemma wait_agitate_run:
  "n = (2 * unat loadTime + 2999 - 3 * unat (millis s - ls)) div 3000 \<Longrightarrow>
   wait_agitate ls loadTime s = agitated n s"
proof (induction n arbitrary: s)
  case 0
  then have "\<not> 3 * unat (millis s - ls) < 2 * unat loadTime" by simp
  then show ?case
    by (subst wait_agitate.simps, simp only: agitate_cond) (simp add: agitated_def)
next
  case (Suc n)
  let ?s1 = "delay 800 (beep 2 50 50 s)"
  have lt: "3 * unat (millis s - ls) < 2 * unat loadTime"
    using Suc.prems by (cases "3 * unat (millis s - ls) < 2 * unat loadTime") simp_all
  have "unat loadTime < 2 ^ 32"
    using unsigned_less[of loadTime, where 'a = nat] by simp
  with lt have "unat (millis s - ls) + 1000 < 2 ^ 32" by simp
  then have e1: "unat (millis ?s1 - ls) = unat (millis s - ls) + 1000"
    using elapsed_shift[of ?s1 s 1000 ls] by simp
  have n: "n = (2 * unat loadTime + 2999 - 3 * unat (millis ?s1 - ls)) div 3000"
    using Suc.prems lt unfolding e1 by simp
  have step: "wait_agitate ls loadTime s = wait_agitate ls loadTime ?s1"
    using lt by (subst wait_agitate.simps, simp only: agitate_cond) simp
  have c: "agitated n ?s1 = agitated (Suc n) s"
    by (simp add: agitated_def delay_def emit_def beep_eq beep_log_2)
  show ?case
    unfolding step Suc.IH[OF n] c ..
qed

lemma wait_topup_dry_run:
  "(\<forall>t\<ge>now s. water_disabled e t) \<Longrightarrow>
   unat loadTime < 2 ^ 30 \<Longrightarrow>
   n = (3 * unat loadTime + 999 - 2 * unat (millis s - ls)) div 1000 \<Longrightarrow>
   wait_topup e ls loadTime s = Some (emit (DigitalRead WATER_DISABLED_PIN) (topped n s))"
proof (induction n arbitrary: s)
  case 0
  have wd: "water_disabled e (now s)" using "0.prems"(1) by simp
  from "0.prems"(3) have "\<not> 2 * unat (millis s - ls) < 3 * unat loadTime" by simp
  then show ?case
    by (subst wait_topup.simps, simp only: isLoaded_dry[OF wd] topup_cond)
       (simp add: topped_def)
next
  case (Suc n)
  have wd: "water_disabled e (now s)" using Suc.prems(1) by simp
  let ?s0 = "emit (DigitalRead WATER_DISABLED_PIN) s"
  let ?s1 = "delay 400 (beep 1 50 50 ?s0)"
  have lt: "2 * unat (millis s - ls) < 3 * unat loadTime"
    using Suc.prems(3) by (cases "2 * unat (millis s - ls) < 3 * unat loadTime") simp_all
  with Suc.prems(2) have "unat (millis s - ls) + 500 < 2 ^ 32" by simp
  then have e1: "unat (millis ?s1 - ls) = unat (millis s - ls) + 500"
    using elapsed_shift[of ?s1 s 500 ls] by simp
  have n: "n = (3 * unat loadTime + 999 - 2 * unat (millis ?s1 - ls)) div 1000"
    using Suc.prems(3) lt unfolding e1 by simp
  have a: "\<forall>t\<ge>now ?s1. water_disabled e t"
    using Suc.prems(1) by simp
  have step: "wait_topup e ls loadTime s = wait_topup e ls loadTime ?s1"
    using lt by (subst wait_topup.simps, simp only: isLoaded_dry[OF wd] topup_cond) simp
  have c: "topped n ?s1 = topped (Suc n) s"
    by (simp add: topped_def delay_def emit_def beep_eq beep_log_1)
  show ?case
    unfolding step Suc.IH[OF a Suc.prems(2) n] c ..
qed

section \<open>The wash loop\<close>

lemma blink_eq:
  "blink s = s\<lparr>now := now s + 2000,
     trace := trace s @ [Delay 1000, DigitalWrite LED_PIN LED_ON, Delay 1000, DigitalWrite LED_PIN LED_OFF]\<rparr>"
  by (simp add: blink_def delay_def digitalWrite_def emit_def)

lemma now_blink [simp]: "now (blink s) = now s + 2000"
  by (simp add: blink_eq)

lemma now_reset [simp]: "now (reset n s) = now s + 6 * to_ulong n"
  by (simp add: reset_eq)

lemma wash_body_hot:
  "temperature < Vo \<Longrightarrow>
   wash_body e temperature cs Vo ws s = Inr (Vo, ws, blink (digitalWrite HEATER_PIN LOW s))"
  by (simp add: wash_body_def heat_step_def)

lemma wash_body_not_hot:
  "\<not> temperature < Vo \<Longrightarrow>
   wash_body e temperature cs Vo ws s =
     (if uint (temp_sensor e (now s)) < temperature \<and> HEATER_TIMEOUT < millis s - cs
      then Inl (FAILED_REACH_TEMP, reset 500 (emit (AnalogRead TEMP_SENSOR) s))
      else Inr (uint (temp_sensor e (now s)), millis s,
                blink (beep 1 150 50 (emit (AnalogRead TEMP_SENSOR) s))))"
  by (simp add: wash_body_def heat_step_def analogRead_def crash_def)

lemma wash_cold_run:
  assumes cold: "\<forall>t. uint (temp_sensor e t) < temperature"
    and W: "2200 < unat (washTime * 60 * 1000)"
  shows "n = 273 - k \<Longrightarrow> k \<le> 273 \<Longrightarrow> Vo \<le> temperature \<Longrightarrow>
    unat (millis s - cs) = 2200 * k \<Longrightarrow> unat (millis s - ws) \<le> 2200 \<Longrightarrow>
    \<exists>s'. wash_loop e washTime temperature cs Vo ws s = Some (Inl (FAILED_REACH_TEMP, s'))
       \<and> now s' = now s + 2200 * (273 - k) + 3000"
proof (induction n arbitrary: k s Vo ws)
  case 0
  then have k: "k = 273" by simp
  have c: "millis s - ws < washTime * 60 * 1000"
    using W "0.prems"(5) by (simp add: word_less_nat_alt)
  have t: "HEATER_TIMEOUT < millis s - cs"
    using "0.prems"(4) k by (simp add: word_less_nat_alt HEATER_TIMEOUT_def)
  have "wash_body e temperature cs Vo ws s = Inl (FAILED_REACH_TEMP, reset 500 (emit (AnalogRead TEMP_SENSOR) s))"
    using cold t "0.prems"(3) by (simp add: wash_body_not_hot)
  then have "wash_loop e washTime temperature cs Vo ws s
      = Some (Inl (FAILED_REACH_TEMP, reset 500 (emit (AnalogRead TEMP_SENSOR) s)))"
    using c by (subst wash_loop.simps) simp
  then show ?case using k by simp
next
  case (Suc n)
  then have k: "k < 273" "n = 273 - Suc k" "Suc k \<le> 273" by simp_all
  have c: "millis s - ws < washTime * 60 * 1000"
    using W Suc.prems(5) by (simp add: word_less_nat_alt)
  have t: "\<not> HEATER_TIMEOUT < millis s - cs"
    using Suc.prems(4) k(1) by (simp add: word_less_nat_alt HEATER_TIMEOUT_def)
  define v where "v = uint (temp_sensor e (now s))"
  define s2 where "s2 = blink (beep 1 150 50 (emit (AnalogRead TEMP_SENSOR) s))"
  have b: "wash_body e temperature cs Vo ws s = Inr (v, millis s, s2)"
    using t Suc.prems(3) unfolding v_def s2_def by (simp add: wash_body_not_hot)
  have step: "wash_loop e washTime temperature cs Vo ws s = wash_loop e washTime temperature cs v (millis s) s2"
    using c by (subst wash_loop.simps) (simp add: b)
  have n2: "now s2 = now s + 2200" unfolding s2_def by simp
  have v: "v \<le> temperature" using cold unfolding v_def by (simp add: less_imp_le)
  have e_cs: "unat (millis s2 - cs) = 2200 * Suc k"
    using elapsed_shift[OF n2, of cs] Suc.prems(4) k(1) by simp
  have e_ws: "unat (millis s2 - millis s) \<le> 2200"
    using elapsed_shift[OF n2, of "millis s"] by simp
  from Suc.IH[OF k(2) k(3) v e_cs e_ws] obtain s' where
    "wash_loop e washTime temperature cs v (millis s) s2 = Some (Inl (FAILED_REACH_TEMP, s'))"
    "now s' = now s2 + 2200 * (273 - Suc k) + 3000"
    by blast
  then show ?case
    unfolding step using n2 k(1) by (intro exI[of _ s']) simp
qed

lemma elapsed_le_true:
  "t0 \<le> now s \<Longrightarrow> unat (millis s - (of_nat t0 :: ulong)) \<le> now s - t0"
proof -
  assume "t0 \<le> now s"
  then have "millis s - (of_nat t0 :: ulong) = of_nat (now s - t0)"
    by (simp add: millis_def)
  then show ?thesis
    by (simp add: unat_of_nat)
qed

lemma wash_body_Inl:
  "wash_body e temperature cs Vo ws s = Inl (c, s') \<Longrightarrow>
   c = FAILED_REACH_TEMP \<and> now s' = now s + 3000 \<and> HEATER_TIMEOUT < millis s - cs
   \<and> uint (temp_sensor e (now s)) < temperature"
  by (cases "temperature < Vo") (auto simp: wash_body_hot wash_body_not_hot split: if_splits)

lemma wash_body_Inr:
  "wash_body e temperature cs Vo ws s = Inr (Vo', ws', s2) \<Longrightarrow> now s \<le> now s2"
  by (cases "temperature < Vo") (auto simp: wash_body_hot wash_body_not_hot split: if_splits)

lemma wash_loop_crash_late:
  assumes run: "wash_loop e washTime temperature cs Vo ws s = Some (Inl (c, s'))"
    and t0: "t0 \<le> now s" "cs = of_nat t0"
  shows "c = FAILED_REACH_TEMP \<and> t0 + 600000 + 3000 < now s'"
proof -
  have "\<forall>c2 s2. t0 \<le> now s \<longrightarrow> cs = of_nat t0 \<longrightarrow> (Inl (c, s') :: fault + state) = Inl (c2, s2) \<longrightarrow>
          c2 = FAILED_REACH_TEMP \<and> t0 + 600000 + 3000 < now s2"
  proof (rule wash_loop.raw_induct[where P = "\<lambda>e washTime temperature cs Vo ws s r.
      \<forall>c s'. t0 \<le> now s \<longrightarrow> cs = of_nat t0 \<longrightarrow> r = Inl (c, s') \<longrightarrow>
         c = FAILED_REACH_TEMP \<and> t0 + 600000 + 3000 < now s'", OF _ run], goal_cases)
    case (1 wl e washTime temperature cs Vo ws s r)
    show ?case
    proof (intro allI impI)
      fix c s'
      assume p: "t0 \<le> now s" "cs = of_nat t0" "r = Inl (c, s')"
      show "c = FAILED_REACH_TEMP \<and> t0 + 600000 + 3000 < now s'"
      proof (cases "millis s - ws < washTime * 60 * 1000")
        case False
        with p "1"(2) show ?thesis by simp
      next
        case True
        show ?thesis
        proof (cases "wash_body e temperature cs Vo ws s")
          case (Inl f)
          with True "1"(2) p(3) have b: "wash_body e temperature cs Vo ws s = Inl (c, s')"
            by simp
          from wash_body_Inl[OF b] have c: "c = FAILED_REACH_TEMP" "now s' = now s + 3000"
            "HEATER_TIMEOUT < millis s - cs" by simp_all
          from c(3) have "600000 < unat (millis s - cs)"
            by (simp add: word_less_nat_alt HEATER_TIMEOUT_def)
          with elapsed_le_true[OF p(1)] p(2) have "600000 < now s - t0" by simp
          with c(1,2) show ?thesis by simp
        next
          case (Inr x)
          obtain Vo' ws' s2 where x: "x = (Vo', ws', s2)" by (cases x) auto
          with Inr True "1"(2) have rec: "wl e washTime temperature cs Vo' ws' s2 = Some r"
            by simp
          have "now s \<le> now s2" using Inr x wash_body_Inr by blast
          with p(1) have "t0 \<le> now s2" by simp
          with "1"(1)[OF rec] p(2,3) show ?thesis by blast
        qed
      qed
    qed
  qed
  with t0 show ?thesis by blast
qed

lemma wash_body_zero: "wash_body e 0 cs Vo ws s \<noteq> Inl f"
  by (cases "0 < Vo") (auto simp: wash_body_hot wash_body_not_hot)

lemma wash_loop_zero:
  assumes run: "wash_loop e washTime 0 cs Vo ws s = Some r"
  shows "\<exists>s'. r = Inr s'"
proof -
  have "(0::int) = 0 \<longrightarrow> (\<exists>s'. r = Inr s')"
  proof (rule wash_loop.raw_induct[where P = "\<lambda>e washTime temperature cs Vo ws s r.
      temperature = 0 \<longrightarrow> (\<exists>s'. r = Inr s')", OF _ run], goal_cases)
    case (1 wl e washTime temperature cs Vo ws s r)
    show ?case
    proof
      assume z: "temperature = 0"
      show "\<exists>s'. r = Inr s'"
      proof (cases "millis s - ws < washTime * 60 * 1000")
        case False
        with "1"(2) show ?thesis by auto
      next
        case True
        show ?thesis
        proof (cases "wash_body e temperature cs Vo ws s")
          case (Inl f)
          with wash_body_zero z show ?thesis by blast
        next
          case (Inr x)
          obtain Vo' ws' s2 where x: "x = (Vo', ws', s2)" by (cases x) auto
          with Inr True "1"(2) have rec: "wl e washTime temperature cs Vo' ws' s2 = Some r"
            by simp
          from "1"(1)[OF rec] z show ?thesis by blast
        qed
      qed
    qed
  qed
  then show ?thesis by simp
qed

section \<open>load with a tank that is always full\<close>

lemma wait_topup_exit_wet:
  "\<forall>k<10. \<not> water_disabled e (now s + k) \<Longrightarrow>
   wait_topup e ls loadTime s = Some (s\<lparr>now := now s + 10, trace := trace s @ poll_log 10 10\<rparr>)"
  by (subst wait_topup.simps) (simp add: isLoaded_wet)

lemma elapsed_zero [simp]: "unat (millis s - millis s) = 0"
  by simp

lemma word_of_unat: "unat (w :: ulong) = n \<Longrightarrow> w = of_nat n"
proof -
  assume "unat w = n"
  then have "(of_nat (unat w) :: ulong) = of_nat n" by simp
  then show ?thesis by simp
qed

lemma load_base_wet:
  assumes wet: "\<forall>t. \<not> water_disabled e t"
  shows "\<exists>s1. load_base e s = Inr (20, s1) \<and> now s1 = now s + 2960"
proof -
  define s0 where "s0 = digitalWrite WATER_LOAD_PIN RELAY_MODULE_ON (beepMessage LOAD_MSG (reset 200 s))"
  have n0: "now s0 = now s + 2940"
    unfolding s0_def by (simp add: beepMessage_def LOAD_MSG_def)
  have ms: "millis (beepMessage LOAD_MSG (reset 200 s)) = millis s0"
    unfolding s0_def by simp
  define s1 where "s1 = wait_base e (millis s0) s0"
  have s1: "s1 = s0\<lparr>now := now s0 + 10, trace := trace s0 @ poll_log 10 10\<rparr>"
    unfolding s1_def using wet by (simp add: wait_base_exit_wet)
  define s2 where "s2 = s1\<lparr>now := now s1 + 10, trace := trace s1 @ poll_log 10 10\<rparr>"
  have il: "isLoaded e s1 = (True, s2)"
    unfolding s2_def using wet by (simp add: isLoaded_wet)
  have n2: "now s2 = now s0 + 20" unfolding s2_def s1 by simp
  have "unat (millis s2 - millis s0) = 20"
    using elapsed_shift[OF n2, of "millis s0"] by simp
  then have lt: "millis s2 - millis s0 = 20"
    using word_of_unat by fastforce
  have "load_base e s = Inr (20, s2)"
    unfolding load_base_def Let_def ms s0_def[symmetric] s1_def[symmetric]
    by (simp add: il lt)
  with n2 n0 show ?thesis by simp
qed

lemma now_doubled [simp]: "now (doubled n s) = now s + 1130 * n"
  by (simp add: doubled_def)

lemma now_agitated [simp]: "now (agitated n s) = now s + 1000 * n"
  by (simp add: agitated_def)

lemma load_extend_wet:
  assumes wet: "\<forall>t. \<not> water_disabled e t" and L: "unat loadTime + 1130 < 2 ^ 32"
  shows "\<exists>s'. load_extend e loadTime s = Some (Inr s')
    \<and> now s' = now s + 1130 * ((unat loadTime + 1129) div 1130)
                     + 1000 * ((2 * unat loadTime + 2999) div 3000) + 1020"
proof -
  define s2 where "s2 = doubled ((unat loadTime + 1129) div 1130) s"
  have d: "wait_double (millis s) loadTime s = Some s2"
    unfolding s2_def by (rule wait_double_run[OF L]) simp
  define s3 where "s3 = agitated ((2 * unat loadTime + 2999) div 3000) (digitalWrite MAIN_PUMP_PIN RELAY_MODULE_ON s2)"
  have a: "wait_agitate (millis s2) loadTime (digitalWrite MAIN_PUMP_PIN RELAY_MODULE_ON s2) = s3"
    unfolding s3_def by (rule wait_agitate_run) simp
  define s4 where "s4 = s3\<lparr>now := now s3 + 10, trace := trace s3 @ poll_log 10 10\<rparr>"
  have t: "wait_topup e (millis s3) loadTime s3 = Some s4"
    unfolding s4_def using wet by (simp add: wait_topup_exit_wet)
  define s5 where "s5 = s4\<lparr>now := now s4 + 10, trace := trace s4 @ poll_log 10 10\<rparr>"
  have il: "isLoaded e s4 = (True, s5)"
    unfolding s5_def using wet by (simp add: isLoaded_wet)
  have "load_extend e loadTime s = Some (Inr (delay 1000 (digitalWrite WATER_LOAD_PIN RELAY_MODULE_OFF s5)))"
    unfolding load_extend_def by (simp add: d a t il)
  moreover have "now s5 = now s + 1130 * ((unat loadTime + 1129) div 1130)
                     + 1000 * ((2 * unat loadTime + 2999) div 3000) + 20"
    unfolding s5_def s4_def s3_def s2_def by simp
  ultimately show ?thesis by simp
qed

lemma load_wet:
  assumes wet: "\<forall>t. \<not> water_disabled e t"
  shows "\<exists>s'. load e s = Some (Inr s') \<and> now s' = now s + 6110"
proof -
  from load_base_wet[OF wet] obtain s1 where
    s1: "load_base e s = Inr (20, s1)" "now s1 = now s + 2960" by blast
  from load_extend_wet[OF wet, of 20 s1] obtain s' where
    "load_extend e 20 s1 = Some (Inr s')" "now s' = now s1 + 3150" by auto
  with s1 show ?thesis by (simp add: load_def)
qed

lemma load_extend_code:
  "load_extend e loadTime s = Some (Inl (c, s')) \<Longrightarrow> c = FAILED_TOP_UP_ISSUE"
  by (auto simp: load_extend_def Let_def crash_def split: option.splits prod.splits if_splits)

lemma load_code:
  "load e s = Some (Inl (c, s')) \<Longrightarrow> c = FAILED_LOAD_ISSUE \<or> c = FAILED_TOP_UP_ISSUE"
  by (auto simp: load_def load_base_def Let_def crash_def dest: load_extend_code
      split: sum.splits prod.splits if_splits)

lemma drain_code: "drain e s = Inl (c, s') \<Longrightarrow> c = DRAIN_ISSUE"
  by (auto simp: drain_def Let_def crash_def split: prod.splits if_splits)

section \<open>cycle: the heater timeout\<close>

text \<open>
  C10. With \<open>temperature = 0\<close> (the rinse program's cycle and the last cycle of the wash
  program) \<open>cycle\<close> never ends in \<open>FAILED_REACH_TEMP\<close>, whatever the sensors read and
  whatever \<open>washTime\<close> and \<open>soap\<close> are; and no pass of the wash loop crashes, so a run
  that never returns does not raise it either. The crash needs a reading below the
  target, and no reading is below 0.
\<close>

theorem no_heat_fault_without_target:
  "cycle e washTime soap 0 s \<noteq> Some (Inl (FAILED_REACH_TEMP, s'))
   \<and> wash_body e 0 cycleStarts Vo washStarts s2 \<noteq> Inl f
   \<and> 0 \<le> fst (analogRead e TEMP_SENSOR s2)"
proof (intro conjI)
  show "cycle e washTime soap 0 s \<noteq> Some (Inl (FAILED_REACH_TEMP, s'))"
  proof
    assume c: "cycle e washTime soap 0 s = Some (Inl (FAILED_REACH_TEMP, s'))"
    show False
    proof (cases "load e s")
      case None
      with c show False by (simp add: cycle_def)
    next
      case (Some r)
      show False
      proof (cases r)
        case (Inl f)
        with Some c have "load e s = Some (Inl (FAILED_REACH_TEMP, s'))"
          by (simp add: cycle_def)
        from load_code[OF this] show False
          by (simp add: FAILED_REACH_TEMP_def FAILED_LOAD_ISSUE_def FAILED_TOP_UP_ISSUE_def)
      next
        case (Inr s1)
        obtain Vo0 s3 where p: "cycle_prepare e soap 0 s1 = (Vo0, s3)"
          by (cases "cycle_prepare e soap 0 s1") auto
        show False
        proof (cases "wash_loop e washTime 0 (millis s3) Vo0 (millis s3) s3")
          case None
          with c Some Inr p show False by (simp add: cycle_def)
        next
          case w: (Some r2)
          from wash_loop_zero[OF w] obtain s4 where "r2 = Inr s4" by blast
          with c Some Inr p w have "drain e s4 = Inl (FAILED_REACH_TEMP, s')"
            by (simp add: cycle_def)
          from drain_code[OF this] show False
            by (simp add: FAILED_REACH_TEMP_def DRAIN_ISSUE_def)
        qed
      qed
    qed
  qed
next
  show "wash_body e 0 cycleStarts Vo washStarts s2 \<noteq> Inl f"
    by (rule wash_body_zero)
next
  show "0 \<le> fst (analogRead e TEMP_SENSOR s2)"
    by (simp add: analogRead_def)
qed

theorem no_heat_fault_without_target_witness:
  "(\<forall>s'. cycle wet 5 False 0 power_up \<noteq> Some (Inl (5, s')))
   \<and> (\<forall>s'. cycle at_target 3 False 0 power_up \<noteq> Some (Inl (5, s')))"
  using no_heat_fault_without_target[of wet 5 False power_up]
        no_heat_fault_without_target[of at_target 3 False power_up]
  by (simp add: FAILED_REACH_TEMP_def)

lemma wash_short_run:
  assumes cold: "\<forall>t. uint (temp_sensor e t) < temperature"
    and W: "unat (washTime * 60 * 1000) \<le> 2200"
    and Vo: "Vo \<le> temperature"
  shows "\<exists>s3. wash_loop e washTime temperature (millis s) Vo (millis s) s = Some (Inr s3)
              \<and> now s3 \<le> now s + 2200"
proof (cases "millis s - millis s < washTime * 60 * 1000")
  case False
  then have "wash_loop e washTime temperature (millis s) Vo (millis s) s = Some (Inr s)"
    by (subst wash_loop.simps) simp
  then show ?thesis by simp
next
  case True
  define v where "v = uint (temp_sensor e (now s))"
  define s2 where "s2 = blink (beep 1 150 50 (emit (AnalogRead TEMP_SENSOR) s))"
  have b: "wash_body e temperature (millis s) Vo (millis s) s = Inr (v, millis s, s2)"
    using Vo unfolding v_def s2_def by (simp add: wash_body_not_hot HEATER_TIMEOUT_def)
  have step: "wash_loop e washTime temperature (millis s) Vo (millis s) s
      = wash_loop e washTime temperature (millis s) v (millis s) s2"
    using True by (subst wash_loop.simps) (simp add: b)
  have n2: "now s2 = now s + 2200" unfolding s2_def by simp
  have "unat (millis s2 - millis s) = 2200"
    using elapsed_shift[OF n2, of "millis s"] by simp
  with W have "\<not> millis s2 - millis s < washTime * 60 * 1000"
    by (simp add: word_less_nat_alt)
  then have "wash_loop e washTime temperature (millis s) v (millis s) s2 = Some (Inr s2)"
    by (subst wash_loop.simps) simp
  with step n2 show ?thesis by simp
qed

lemma now_cycle_prepare:
  "cycle_prepare e soap temperature s = (Vo, s2) \<Longrightarrow>
   Vo = uint (temp_sensor e (now s + (if soap then 1200 else 0)))
   \<and> now s2 = now s + (if soap then 1200 else 0) + (if 0 < temperature \<and> Vo < temperature then 1000 else 0)"
  by (auto simp: cycle_prepare_def analogRead_def Let_def add.commute split: if_splits)

text \<open>
  C5. Let \<open>load\<close> have returned, and let \<open>s2\<close> be the state in which \<open>cycle\<close> takes
  \<^verbatim>\<open>cycleStarts\<close>. A crash is the value \<open>(issue, state after reset 500)\<close>, and the reset
  takes 3000 ms: the crash was raised 3000 ms before the clock of that state.
  \<^item> Whatever the sensors read, \<open>FAILED_REACH_TEMP\<close> is never raised at or before
    \<open>HEATER_TIMEOUT\<close> = 600000 ms after the cycle started.
  \<^item> With a thermistor that reads below the target all the time and a wash budget
    \<^verbatim>\<open>washTime * 60 * 1000\<close> of more than one pass of the loop (2200 ms; every
    \<open>washTime\<close> from 1 to 71582 minutes), \<open>cycle\<close> raises \<open>FAILED_REACH_TEMP\<close> = 5, and
    raises it 600600 ms after the cycle started: at the first of the loop's checks, which
    are 2200 ms apart, that falls after the deadline.
  \<^item> With a budget of at most 2200 ms (\<open>washTime = 0\<close>, or a product that wraps) the
    wash loop is over within 2200 ms, long before the deadline.
\<close>

theorem heater_timeout:
  assumes ld: "load e s = Some (Inr s1)"
    and pr: "cycle_prepare e soap temperature s1 = (Vo, s2)"
  shows "(\<forall>s'. cycle e washTime soap temperature s = Some (Inl (FAILED_REACH_TEMP, s'))
            \<longrightarrow> now s2 + 600000 + 3000 < now s')
       \<and> ((\<forall>t. uint (temp_sensor e t) < temperature) \<and> 2200 < unat (washTime * 60 * 1000)
            \<longrightarrow> (\<exists>s'. cycle e washTime soap temperature s = Some (Inl (FAILED_REACH_TEMP, s'))
                     \<and> now s' = now s2 + 600600 + 3000))
       \<and> ((\<forall>t. uint (temp_sensor e t) < temperature) \<and> unat (washTime * 60 * 1000) \<le> 2200
            \<longrightarrow> (\<exists>s3. wash_loop e washTime temperature (millis s2) Vo (millis s2) s2 = Some (Inr s3)
                     \<and> now s3 \<le> now s2 + 2200))
       \<and> FAILED_REACH_TEMP = 5 \<and> HEATER_TIMEOUT = 600000"
proof (intro conjI allI impI)
  fix s'
  assume c: "cycle e washTime soap temperature s = Some (Inl (FAILED_REACH_TEMP, s'))"
  show "now s2 + 600000 + 3000 < now s'"
  proof (cases "wash_loop e washTime temperature (millis s2) Vo (millis s2) s2")
    case None
    with c ld pr show ?thesis by (simp add: cycle_def)
  next
    case (Some r)
    show ?thesis
    proof (cases r)
      case (Inl f)
      with c ld pr Some have "wash_loop e washTime temperature (millis s2) Vo (millis s2) s2
          = Some (Inl (FAILED_REACH_TEMP, s'))"
        by (simp add: cycle_def)
      from wash_loop_crash_late[OF this, of "now s2"] show ?thesis
        by (simp add: millis_def)
    next
      case (Inr s4)
      with c ld pr Some have "drain e s4 = Inl (FAILED_REACH_TEMP, s')"
        by (simp add: cycle_def)
      from drain_code[OF this] show ?thesis
        by (simp add: FAILED_REACH_TEMP_def DRAIN_ISSUE_def)
    qed
  qed
next
  assume h: "(\<forall>t. uint (temp_sensor e t) < temperature) \<and> 2200 < unat (washTime * 60 * 1000)"
  have Vo: "Vo \<le> temperature"
    using now_cycle_prepare[OF pr] h by (simp add: less_imp_le)
  from wash_cold_run[of e temperature washTime 273 0 Vo s2 "millis s2" "millis s2"] h Vo
  obtain s' where "wash_loop e washTime temperature (millis s2) Vo (millis s2) s2
        = Some (Inl (FAILED_REACH_TEMP, s'))" "now s' = now s2 + 2200 * 273 + 3000"
    by auto
  then show "\<exists>s'. cycle e washTime soap temperature s = Some (Inl (FAILED_REACH_TEMP, s'))
                     \<and> now s' = now s2 + 600600 + 3000"
    using ld pr by (intro exI[of _ s']) (simp add: cycle_def)
next
  assume h: "(\<forall>t. uint (temp_sensor e t) < temperature) \<and> unat (washTime * 60 * 1000) \<le> 2200"
  have Vo: "Vo \<le> temperature"
    using now_cycle_prepare[OF pr] h by (simp add: less_imp_le)
  from wash_short_run[of e temperature washTime Vo s2] h Vo
  show "\<exists>s3. wash_loop e washTime temperature (millis s2) Vo (millis s2) s2 = Some (Inr s3)
                     \<and> now s3 \<le> now s2 + 2200"
    by blast
next
  show "FAILED_REACH_TEMP = 5" by (simp add: FAILED_REACH_TEMP_def)
next
  show "HEATER_TIMEOUT = 600000" by (simp add: HEATER_TIMEOUT_def)
qed

theorem heater_timeout_witness:
  "\<exists>s'. cycle wet 3 False 950 power_up = Some (Inl (5, s')) \<and> now s' = 610710"
proof -
  have w: "\<forall>t. \<not> water_disabled wet t" by (simp add: wet_def)
  from load_wet[OF w, of power_up] obtain s1 where
    s1: "load wet power_up = Some (Inr s1)" "now s1 = 6110"
    by (auto simp: power_up_def)
  obtain Vo s2 where p: "cycle_prepare wet False 950 s1 = (Vo, s2)"
    by (cases "cycle_prepare wet False 950 s1") auto
  from now_cycle_prepare[OF p] s1(2) have n2: "now s2 = 7110"
    by (simp add: wet_def)
  have cold: "(\<forall>t. uint (temp_sensor wet t) < 950) \<and> 2200 < unat (3 * 60 * 1000 :: ulong)"
    by (simp add: wet_def)
  from heater_timeout[OF s1(1) p, of 3] cold n2 show ?thesis
    by (simp add: FAILED_REACH_TEMP_def)
qed

section \<open>cycle: a reading equal to the target\<close>

text \<open>
  C6. The pass of the wash loop tests \<^verbatim>\<open>Vo > temperature\<close>. For a cached reading above
  the target it writes the heater line low and keeps \<^verbatim>\<open>washStarts\<close> (\<open>wash_body_hot\<close>).
  For a cached reading equal to the target the pass takes the other branch. Run
  with the target 950, the cached and the fresh reading both 950, the clock at 5000 and
  \<^verbatim>\<open>washStarts = 0\<close>, the pass logs no write to the heater line, beeps "heating", and
  returns \<^verbatim>\<open>washStarts = 5000\<close>: the wash timer starts again. When the reading stays
  at the target the loop never ends (\<open>cycle_hangs_at_target\<close>).
\<close>

theorem wash_pass_at_target:
  "wash_body at_target 950 0 950 0 \<lparr>now = 5000, trace = []\<rparr> =
     Inr (950, 5000,
          \<lparr>now = 7200,
           trace = [AnalogRead TEMP_SENSOR, Tone SPEAKER_PIN 1000 150, Delay 200,
                    Delay 1000, DigitalWrite LED_PIN LED_ON, Delay 1000,
                    DigitalWrite LED_PIN LED_OFF]\<rparr>)"
  by (simp add: wash_body_not_hot at_target_def HEATER_TIMEOUT_def millis_def blink_eq beep_eq
      beep_log_1 emit_def)

lemma wash_loop_hangs:
  assumes run: "wash_loop e washTime temperature cs Vo ws s = Some r"
    and at: "\<forall>t. uint (temp_sensor e t) = temperature"
    and W: "2200 < unat (washTime * 60 * 1000)"
    and Vo: "Vo \<le> temperature"
    and el: "unat (millis s - ws) \<le> 2200"
  shows False
proof -
  have "(\<forall>t. uint (temp_sensor e t) = temperature) \<longrightarrow> 2200 < unat (washTime * 60 * 1000)
        \<longrightarrow> Vo \<le> temperature \<longrightarrow> unat (millis s - ws) \<le> 2200 \<longrightarrow> False"
  proof (rule wash_loop.raw_induct[where P = "\<lambda>e washTime temperature cs Vo ws s r.
      (\<forall>t. uint (temp_sensor e t) = temperature) \<longrightarrow> 2200 < unat (washTime * 60 * 1000)
        \<longrightarrow> Vo \<le> temperature \<longrightarrow> unat (millis s - ws) \<le> 2200 \<longrightarrow> False", OF _ run], goal_cases)
    case (1 wl e washTime temperature cs Vo ws s r)
    show ?case
    proof (intro impI)
      assume at: "\<forall>t. uint (temp_sensor e t) = temperature"
        and W: "2200 < unat (washTime * 60 * 1000)"
        and Vo: "Vo \<le> temperature" and el: "unat (millis s - ws) \<le> 2200"
      have c: "millis s - ws < washTime * 60 * 1000"
        using W el by (simp add: word_less_nat_alt)
      define s2 where "s2 = blink (beep 1 150 50 (emit (AnalogRead TEMP_SENSOR) s))"
      have b: "wash_body e temperature cs Vo ws s = Inr (temperature, millis s, s2)"
        using at Vo unfolding s2_def by (simp add: wash_body_not_hot)
      from "1"(2) c b have rec: "wl e washTime temperature cs temperature (millis s) s2 = Some r"
        by simp
      have n2: "now s2 = now s + 2200" unfolding s2_def by simp
      have "unat (millis s2 - millis s) \<le> 2200"
        using elapsed_shift[OF n2, of "millis s"] by simp
      with "1"(1)[OF rec] at W show False by simp
    qed
  qed
  with at W Vo el show False by blast
qed

lemma cycle_hangs_at_target:
  assumes at: "\<forall>t. uint (temp_sensor e t) = temperature"
    and W: "2200 < unat (washTime * 60 * 1000)"
    and ld: "load e s = Some (Inr s1)"
  shows "cycle e washTime soap temperature s = None"
proof -
  obtain Vo s2 where p: "cycle_prepare e soap temperature s1 = (Vo, s2)"
    by (cases "cycle_prepare e soap temperature s1") auto
  have Vo: "Vo \<le> temperature"
    using now_cycle_prepare[OF p] at by simp
  have "wash_loop e washTime temperature (millis s2) Vo (millis s2) s2 = None"
  proof (cases "wash_loop e washTime temperature (millis s2) Vo (millis s2) s2")
    case None
    then show ?thesis .
  next
    case (Some r)
    from wash_loop_hangs[OF Some at W Vo] show ?thesis by simp
  qed
  with ld p show ?thesis by (simp add: cycle_def)
qed

lemma cycle_hangs_example: "cycle at_target 3 False 950 power_up = None"
proof -
  have w: "\<forall>t. \<not> water_disabled at_target t" by (simp add: at_target_def)
  from load_wet[OF w, of power_up] obtain s1 where "load at_target power_up = Some (Inr s1)"
    by blast
  then show ?thesis
    by (intro cycle_hangs_at_target) (simp_all add: at_target_def)
qed

section \<open>cycle: the heater is switched on at most once\<close>

lemma heater_ons_Nil [simp]: "heater_ons [] = 0"
  by (simp add: heater_ons_def)

lemma heater_ons_Cons [simp]:
  "heater_ons (ev # tr) = (if ev = DigitalWrite HEATER_PIN HIGH then 1 else 0) + heater_ons tr"
  by (simp add: heater_ons_def)

lemma heater_ons_append [simp]: "heater_ons (xs @ ys) = heater_ons xs + heater_ons ys"
  by (simp add: heater_ons_def)

lemma heater_ons_beep_log [simp]: "heater_ons (beep_log n len dl) = 0"
  by (induction n) simp_all

lemma heater_ons_poll_log [simp]: "heater_ons (poll_log k n) = 0"
proof -
  have "heater_ons (concat (replicate k [DigitalRead WATER_DISABLED_PIN, Delay 1])) = 0"
    by (induction k) simp_all
  then show ?thesis by (simp add: poll_log_def)
qed

lemma heater_ons_reset [simp]: "heater_ons (trace (reset n s)) = heater_ons (trace s)"
  by (simp add: reset_eq)

lemma heater_ons_isLoaded [simp]: "heater_ons (trace (snd (isLoaded e s))) = heater_ons (trace s)"
  by (simp add: isLoaded_eq)

lemma heater_ons_beepMessage [simp]: "heater_ons (trace (beepMessage m s)) = heater_ons (trace s)"
  by (simp add: beepMessage_def)

lemma heater_ons_blink [simp]: "heater_ons (trace (blink s)) = heater_ons (trace s)"
  by (simp add: blink_eq)

lemma heater_ons_wait_base [simp]:
  "heater_ons (trace (wait_base e ls s)) = heater_ons (trace s)"
proof (induction e ls s rule: wait_base.induct)
  case (1 e ls s)
  obtain filled s1 where il: "isLoaded e s = (filled, s1)" by (cases "isLoaded e s") auto
  have h1: "heater_ons (trace s1) = heater_ons (trace s)"
    using heater_ons_isLoaded[of e s] il by simp
  show ?case
  proof (cases "\<not> filled \<and> millis s1 - ls < LOAD_TIMEOUT")
    case True
    have "wait_base e ls s = wait_base e ls (delay 10 s1)"
      using True by (subst wait_base.simps) (simp add: il)
    with "1.IH"[OF il[symmetric] refl True] h1 show ?thesis by simp
  next
    case False
    then have "wait_base e ls s = s1"
      by (subst wait_base.simps) (auto simp: il)
    with h1 show ?thesis by simp
  qed
qed

lemma heater_ons_wait_agitate [simp]:
  "heater_ons (trace (wait_agitate ls loadTime s)) = heater_ons (trace s)"
proof -
  have "heater_ons (concat (replicate n
        [Tone SPEAKER_PIN 1000 50, Delay 100, Tone SPEAKER_PIN 1000 50, Delay 100, Delay 800])) = 0" for n
    by (induction n) simp_all
  then show ?thesis
    by (simp add: wait_agitate_run[OF refl] agitated_def)
qed

lemma heater_ons_wait_double:
  assumes run: "wait_double ls loadTime s = Some s'"
  shows "heater_ons (trace s') = heater_ons (trace s)"
proof (rule wait_double.raw_induct[where P = "\<lambda>ls loadTime s s'.
      heater_ons (trace s') = heater_ons (trace s)", OF _ run], goal_cases)
  case (1 wd ls loadTime s s')
  show ?case
  proof (cases "millis s - ls < loadTime")
    case True
    with "1"(2) have "wd ls loadTime (delay 1000 (beep 1 80 50 s)) = Some s'" by simp
    from "1"(1)[OF this] show ?thesis by simp
  next
    case False
    with "1"(2) show ?thesis by simp
  qed
qed

lemma heater_ons_wait_topup:
  assumes run: "wait_topup e ls loadTime s = Some s'"
  shows "heater_ons (trace s') = heater_ons (trace s)"
proof (rule wait_topup.raw_induct[where P = "\<lambda>e ls loadTime s s'.
      heater_ons (trace s') = heater_ons (trace s)", OF _ run], goal_cases)
  case (1 wt e ls loadTime s s')
  obtain filled s1 where il: "isLoaded e s = (filled, s1)" by (cases "isLoaded e s") auto
  have h1: "heater_ons (trace s1) = heater_ons (trace s)"
    using heater_ons_isLoaded[of e s] il by simp
  show ?case
  proof (cases "\<not> filled \<and> to_double (millis s1 - ls) < to_double loadTime * 1.5")
    case True
    with "1"(2) il have "wt e ls loadTime (delay 400 (beep 1 50 50 s1)) = Some s'"
      by simp
    from "1"(1)[OF this] h1 show ?thesis by simp
  next
    case False
    with "1"(2) il have "s' = s1" by auto
    with h1 show ?thesis by simp
  qed
qed

lemma final_simps [simp]: "final (Inl (c, s)) = s" "final (Inr s) = s"
  by (simp_all add: final_def)

lemma heater_ons_crash [simp]: "heater_ons (trace (snd (crash c s))) = heater_ons (trace s)"
  by (simp add: crash_def)

lemma load_extend_eq:
  assumes d: "wait_double (millis s) loadTime s = Some s5"
    and a: "s7 = wait_agitate (millis s5) loadTime (digitalWrite MAIN_PUMP_PIN RELAY_MODULE_ON s5)"
    and t: "wait_topup e (millis s7) loadTime s7 = Some s8"
  shows "load_extend e loadTime s =
           Some (if \<not> fst (isLoaded e s8)
                 then Inl (FAILED_TOP_UP_ISSUE, reset 500 (snd (isLoaded e s8)))
                 else Inr (delay 1000 (digitalWrite WATER_LOAD_PIN RELAY_MODULE_OFF (snd (isLoaded e s8)))))"
  using t unfolding a
  by (simp add: load_extend_def d crash_def split: prod.splits)

lemma heater_ons_load:
  assumes "load e s = Some r"
  shows "heater_ons (trace (final r)) = heater_ons (trace s)"
proof (cases "load_base e s")
  case (Inl f)
  define s0 where "s0 = digitalWrite WATER_LOAD_PIN RELAY_MODULE_ON (beepMessage LOAD_MSG (reset 200 s))"
  define s1 where "s1 = wait_base e (millis s0) s0"
  have ms: "millis (beepMessage LOAD_MSG (reset 200 s)) = millis s0"
    unfolding s0_def by simp
  have "f = crash FAILED_LOAD_ISSUE (snd (isLoaded e s1))"
    using Inl unfolding load_base_def Let_def ms s0_def[symmetric] s1_def[symmetric]
    by (auto split: prod.splits if_splits)
  moreover have "heater_ons (trace (snd (isLoaded e s1))) = heater_ons (trace s)"
    unfolding s1_def s0_def by simp
  moreover have "r = Inl f" using assms Inl by (simp add: load_def)
  ultimately show ?thesis by (simp add: crash_def)
next
  case (Inr x)
  obtain loadTime s4 where x: "x = (loadTime, s4)" by (cases x) auto
  define s0 where "s0 = digitalWrite WATER_LOAD_PIN RELAY_MODULE_ON (beepMessage LOAD_MSG (reset 200 s))"
  define s1 where "s1 = wait_base e (millis s0) s0"
  have ms: "millis (beepMessage LOAD_MSG (reset 200 s)) = millis s0"
    unfolding s0_def by simp
  have "s4 = snd (isLoaded e s1)"
    using Inr x unfolding load_base_def Let_def ms s0_def[symmetric] s1_def[symmetric]
    by (auto split: prod.splits if_splits)
  moreover have "heater_ons (trace (snd (isLoaded e s1))) = heater_ons (trace s)"
    unfolding s1_def s0_def by simp
  ultimately have h4: "heater_ons (trace s4) = heater_ons (trace s)" by simp
  have ext: "load_extend e loadTime s4 = Some r"
    using assms Inr x by (simp add: load_def)
  then obtain s5 where d: "wait_double (millis s4) loadTime s4 = Some s5"
    by (auto simp: load_extend_def split: option.splits)
  define s7 where "s7 = wait_agitate (millis s5) loadTime (digitalWrite MAIN_PUMP_PIN RELAY_MODULE_ON s5)"
  have h7: "heater_ons (trace s7) = heater_ons (trace s)"
    unfolding s7_def using heater_ons_wait_double[OF d] h4 by simp
  from ext d obtain s8 where t: "wait_topup e (millis s7) loadTime s7 = Some s8"
    unfolding s7_def by (auto simp: load_extend_def Let_def split: option.splits)
  have h8: "heater_ons (trace (snd (isLoaded e s8))) = heater_ons (trace s)"
    using heater_ons_wait_topup[OF t] h7 by simp
  have "r = (if \<not> fst (isLoaded e s8)
             then Inl (FAILED_TOP_UP_ISSUE, reset 500 (snd (isLoaded e s8)))
             else Inr (delay 1000 (digitalWrite WATER_LOAD_PIN RELAY_MODULE_OFF (snd (isLoaded e s8)))))"
    using ext load_extend_eq[OF d s7_def t] by simp
  with h8 show ?thesis by simp
qed

lemma heater_ons_drain: "heater_ons (trace (final (drain e s))) = heater_ons (trace s)"
proof -
  define s1 where "s1 = digitalWrite DRAIN_PIN RELAY_MODULE_OFF (delay DRAIN_TIME
      (beepMessage DRAIN_MSG (digitalWrite DRAIN_PIN RELAY_MODULE_ON (reset 1000 s))))"
  have "drain e s = (if fst (isLoaded e s1) then Inl (crash DRAIN_ISSUE (snd (isLoaded e s1)))
                     else Inr (snd (isLoaded e s1)))"
    unfolding s1_def by (simp add: drain_def Let_def split: prod.splits)
  moreover have "heater_ons (trace (snd (isLoaded e s1))) = heater_ons (trace s)"
    unfolding s1_def by simp
  ultimately show ?thesis by (simp add: crash_def)
qed

lemma heater_ons_wash_body:
  "wash_body e temperature cs Vo ws s = r \<Longrightarrow>
   heater_ons (trace (case r of Inl (c, s') \<Rightarrow> s' | Inr (Vo', ws', s') \<Rightarrow> s')) = heater_ons (trace s)"
  by (cases "temperature < Vo") (auto simp: wash_body_hot wash_body_not_hot split: if_splits)

lemma heater_ons_wash_loop:
  assumes run: "wash_loop e washTime temperature cs Vo ws s = Some r"
  shows "heater_ons (trace (final r)) = heater_ons (trace s)"
proof (rule wash_loop.raw_induct[where P = "\<lambda>e washTime temperature cs Vo ws s r.
      heater_ons (trace (final r)) = heater_ons (trace s)", OF _ run], goal_cases)
  case (1 wl e washTime temperature cs Vo ws s r)
  show ?case
  proof (cases "millis s - ws < washTime * 60 * 1000")
    case False
    with "1"(2) show ?thesis by auto
  next
    case True
    show ?thesis
    proof (cases "wash_body e temperature cs Vo ws s")
      case (Inl f)
      obtain c s' where f: "f = (c, s')" by (cases f) auto
      from heater_ons_wash_body[OF Inl] f have "heater_ons (trace s') = heater_ons (trace s)"
        by simp
      moreover from True "1"(2) Inl f have "r = Inl (c, s')" by simp
      ultimately show ?thesis by simp
    next
      case (Inr x)
      obtain Vo' ws' s2 where x: "x = (Vo', ws', s2)" by (cases x) auto
      from heater_ons_wash_body[OF Inr] x have h: "heater_ons (trace s2) = heater_ons (trace s)"
        by simp
      from Inr x True "1"(2) have "wl e washTime temperature cs Vo' ws' s2 = Some r"
        by simp
      from "1"(1)[OF this] h show ?thesis by simp
    qed
  qed
qed

lemma heater_ons_cycle_prepare:
  "cycle_prepare e soap temperature s = (Vo, s2) \<Longrightarrow>
   heater_ons (trace s2) = heater_ons (trace s) + (if 0 < temperature \<and> Vo < temperature then 1 else 0)"
  by (auto simp: cycle_prepare_def analogRead_def Let_def split: if_splits)

lemma cycle_wet_cold:
  "\<exists>s'. cycle wet 3 False 950 power_up = Some (Inl (FAILED_REACH_TEMP, s')) \<and> now s' = 610710"
proof -
  have w: "\<forall>t. \<not> water_disabled wet t" by (simp add: wet_def)
  from load_wet[OF w, of power_up] obtain s1 where
    s1: "load wet power_up = Some (Inr s1)" "now s1 = 6110"
    by (auto simp: power_up_def)
  obtain Vo s2 where p: "cycle_prepare wet False 950 s1 = (Vo, s2)"
    by (cases "cycle_prepare wet False 950 s1") auto
  from now_cycle_prepare[OF p] s1(2) have n2: "now s2 = 7110" and Vo: "Vo = 0"
    by (simp_all add: wet_def)
  have cold: "\<forall>t. uint (temp_sensor wet t) < 950" and W: "2200 < unat (3 * 60 * 1000 :: ulong)"
    by (simp_all add: wet_def)
  from wash_cold_run[OF cold W, of 273 0 Vo s2 "millis s2" "millis s2"] Vo
  obtain s' where "wash_loop wet 3 950 (millis s2) Vo (millis s2) s2
        = Some (Inl (FAILED_REACH_TEMP, s'))" "now s' = now s2 + 2200 * 273 + 3000"
    by auto
  then show ?thesis
    using s1(1) p n2 by (intro exI[of _ s']) (simp add: cycle_def)
qed

text \<open>
  C8. Whenever \<open>cycle\<close> ends, by returning or by a crash, its log switches the heater on
  once if \<open>load\<close> returned, the target is positive and the one reading taken before the
  loop (the first component of \<open>cycle_prepare\<close>) was below it, and not at all otherwise.
  And no pass of the wash loop switches the heater on, whatever the cached and the fresh
  reading are; this also covers a loop that never ends.
\<close>

theorem heater_energized_once:
  "(\<forall>r. cycle e washTime soap temperature s = Some r \<longrightarrow>
       heater_ons (trace (final r)) = heater_ons (trace s) +
         (case load e s of
            Some (Inr s1) \<Rightarrow>
              (if 0 < temperature \<and> fst (cycle_prepare e soap temperature s1) < temperature
               then 1 else 0)
          | _ \<Rightarrow> 0))
   \<and> heater_ons (trace (case wash_body e temperature cycleStarts Vo washStarts s2 of
                           Inl (issue, s') \<Rightarrow> s' | Inr (Vo', washStarts', s') \<Rightarrow> s'))
       = heater_ons (trace s2)"
proof (intro conjI allI impI)
  fix r
  assume c: "cycle e washTime soap temperature s = Some r"
  then obtain r1 where ld: "load e s = Some r1"
    by (auto simp: cycle_def split: option.splits)
  have h1: "heater_ons (trace (final r1)) = heater_ons (trace s)"
    by (rule heater_ons_load[OF ld])
  show "heater_ons (trace (final r)) = heater_ons (trace s) +
         (case load e s of
            Some (Inr s1) \<Rightarrow>
              (if 0 < temperature \<and> fst (cycle_prepare e soap temperature s1) < temperature
               then 1 else 0)
          | _ \<Rightarrow> 0)"
  proof (cases r1)
    case (Inl f)
    with c ld have "r = r1" by (simp add: cycle_def)
    with h1 ld Inl show ?thesis by simp
  next
    case (Inr s1)
    obtain Vo0 s3 where p: "cycle_prepare e soap temperature s1 = (Vo0, s3)"
      by (cases "cycle_prepare e soap temperature s1") auto
    have h3: "heater_ons (trace s3) = heater_ons (trace s)
        + (if 0 < temperature \<and> Vo0 < temperature then 1 else 0)"
      using heater_ons_cycle_prepare[OF p] h1 Inr by simp
    from c ld Inr p obtain r2 where
      w: "wash_loop e washTime temperature (millis s3) Vo0 (millis s3) s3 = Some r2"
      by (auto simp: cycle_def split: option.splits)
    have h4: "heater_ons (trace (final r2)) = heater_ons (trace s3)"
      by (rule heater_ons_wash_loop[OF w])
    have "heater_ons (trace (final r)) = heater_ons (trace s3)"
    proof (cases r2)
      case (Inl f)
      with c ld Inr p w have "r = r2" by (simp add: cycle_def)
      with h4 show ?thesis by simp
    next
      case r2: (Inr s4)
      with c ld Inr p w have "r = drain e s4" by (simp add: cycle_def)
      with h4 r2 heater_ons_drain[of e s4] show ?thesis by simp
    qed
    with h3 ld Inr p show ?thesis by simp
  qed
next
  show "heater_ons (trace (case wash_body e temperature cycleStarts Vo washStarts s2 of
                           Inl (issue, s') \<Rightarrow> s' | Inr (Vo', washStarts', s') \<Rightarrow> s'))
       = heater_ons (trace s2)"
    by (rule heater_ons_wash_body[OF refl])
qed

theorem heater_energized_once_witness:
  "\<exists>s'. cycle wet 3 False 950 power_up = Some (Inl (5, s')) \<and> heater_ons (trace s') = 1"
proof -
  from cycle_wet_cold obtain s' where
    c: "cycle wet 3 False 950 power_up = Some (Inl (FAILED_REACH_TEMP, s'))" by blast
  have w: "\<forall>t. \<not> water_disabled wet t" by (simp add: wet_def)
  from load_wet[OF w, of power_up] obtain s1 where
    s1: "load wet power_up = Some (Inr s1)" by blast
  have "fst (cycle_prepare wet False 950 s1) = 0"
    using now_cycle_prepare[of wet False 950 s1] by (cases "cycle_prepare wet False 950 s1") (simp add: wet_def)
  with heater_energized_once[of wet 3 False 950 power_up] c s1
  have "heater_ons (trace s') = 1"
    by (simp add: power_up_def)
  with c show ?thesis by (auto simp: FAILED_REACH_TEMP_def)
qed

section \<open>load: the base stage\<close>

lemma now_dry_polls [simp]: "now (dry_polls n s) = now s + 10 * n"
  by (simp add: dry_polls_def)

lemma base_poll_fill:
  assumes dry: "\<forall>t. now s0 \<le> t \<and> t < now s0 + T \<longrightarrow> water_disabled e t"
    and wet: "\<forall>t. now s0 + T \<le> t \<and> t < now s0 + T + 30 \<longrightarrow> \<not> water_disabled e t"
    and T: "T \<le> 200000"
  shows "\<exists>sC. isLoaded e (wait_base e (millis s0) s0) = (True, sC)
            \<and> now sC = now s0 + (10 * ((T + 9) div 10) + 20)
            \<and> millis sC - millis s0 = of_nat (10 * ((T + 9) div 10) + 20)"
proof -
  define j where "j = (T + 9) div 10"
  have j1: "10 * j \<le> T + 9" and j2: "T \<le> 10 * j" unfolding j_def by simp_all
  have d: "\<forall>i<j. water_disabled e (now s0 + 10 * i)"
  proof (intro allI impI)
    fix i assume "i < j"
    then have "10 * i + 10 \<le> 10 * j" by simp
    with j1 have "10 * i < T" by simp
    with dry show "water_disabled e (now s0 + 10 * i)" by simp
  qed
  have b: "unat (millis s0 - millis s0) + 10 * j < 200010"
    using j1 T by simp
  define sA where "sA = dry_polls j s0"
  have nA: "now sA = now s0 + 10 * j" unfolding sA_def by simp
  have r1: "wait_base e (millis s0) s0 = wait_base e (millis s0) sA"
    unfolding sA_def by (rule wait_base_dry_run[OF d b])
  have wA: "\<forall>k<10. \<not> water_disabled e (now sA + k)"
    using wet nA j1 j2 by simp
  define sB where "sB = sA\<lparr>now := now sA + 10, trace := trace sA @ poll_log 10 10\<rparr>"
  have r2: "wait_base e (millis s0) sA = sB"
    unfolding sB_def by (rule wait_base_exit_wet[OF wA])
  have nB: "now sB = now s0 + 10 * j + 10" unfolding sB_def using nA by simp
  have wB: "\<forall>k<10. \<not> water_disabled e (now sB + k)"
    using wet nB j1 j2 by simp
  define sC where "sC = sB\<lparr>now := now sB + 10, trace := trace sB @ poll_log 10 10\<rparr>"
  have il: "isLoaded e sB = (True, sC)"
    unfolding sC_def by (rule isLoaded_wet[OF wB])
  have nC: "now sC = now s0 + (10 * j + 20)" unfolding sC_def using nB by simp
  have "unat (millis sC - millis s0) = 10 * j + 20"
    using elapsed_shift[OF nC, of "millis s0"] j1 T by simp
  then have lt: "millis sC - millis s0 = of_nat (10 * j + 20)"
    by (rule word_of_unat)
  show ?thesis
    unfolding r1 r2 j_def[symmetric] using il nC lt by simp
qed

lemma base_poll_dry:
  assumes dry: "\<forall>t. water_disabled e t"
  shows "\<exists>sC. isLoaded e (wait_base e (millis s0) s0) = (False, sC)
            \<and> now sC = now s0 + 200000 \<and> millis sC - millis s0 = 200000"
proof -
  define sA where "sA = dry_polls 20000 s0"
  have nA: "now sA = now s0 + 200000" unfolding sA_def by simp
  have r1: "wait_base e (millis s0) s0 = wait_base e (millis s0) sA"
    unfolding sA_def using dry by (intro wait_base_dry_run) simp_all
  have eA: "unat (millis sA - millis s0) = 200000"
    using elapsed_shift[OF nA, of "millis s0"] by simp
  define sB where "sB = emit (DigitalRead WATER_DISABLED_PIN) sA"
  have r2: "wait_base e (millis s0) sA = sB"
    unfolding sB_def using dry eA by (intro wait_base_exit_timeout) simp_all
  define sC where "sC = emit (DigitalRead WATER_DISABLED_PIN) sB"
  have il: "isLoaded e sB = (False, sC)"
    unfolding sC_def using dry by (simp add: isLoaded_dry)
  have "unat (millis sC - millis s0) = 200000"
    unfolding sC_def sB_def using eA by simp
  then have t: "millis sC - millis s0 = of_nat 200000"
    by (rule word_of_unat)
  have "now sC = now s0 + 200000"
    unfolding sC_def sB_def using nA by simp
  with il t show ?thesis unfolding r1 r2 by simp
qed

lemma load_base_eq:
  "load_base e s =
    (let s0 = digitalWrite WATER_LOAD_PIN RELAY_MODULE_ON (beepMessage LOAD_MSG (reset 200 s));
         poll = isLoaded e (wait_base e (millis s0) s0);
         elapsed = millis (snd poll) - millis s0
     in if \<not> fst poll \<and> LOAD_TIMEOUT \<le> elapsed
        then Inl (FAILED_LOAD_ISSUE, reset 500 (snd poll))
        else Inr (elapsed, snd poll))"
  by (simp add: load_base_def Let_def crash_def split: prod.splits)

lemma now_valve_open [simp]:
  "now (beepMessage LOAD_MSG (reset 200 s)) = now s + 2940"
  by (simp add: beepMessage_def LOAD_MSG_def)

lemma load_base_fill:
  assumes dry: "\<forall>t. now s + 2940 \<le> t \<and> t < now s + 2940 + T \<longrightarrow> water_disabled e t"
    and wet: "\<forall>t. now s + 2940 + T \<le> t \<and> t < now s + 2940 + T + 30 \<longrightarrow> \<not> water_disabled e t"
    and T: "T \<le> 200000"
  shows "\<exists>s1. load_base e s = Inr (of_nat (10 * ((T + 9) div 10) + 20), s1)
            \<and> now s1 = now s + 2940 + (10 * ((T + 9) div 10) + 20)"
proof -
  define s0 where "s0 = digitalWrite WATER_LOAD_PIN RELAY_MODULE_ON (beepMessage LOAD_MSG (reset 200 s))"
  have n0: "now s0 = now s + 2940" unfolding s0_def by simp
  from base_poll_fill[of s0 T e] dry wet T n0 obtain sC where
    "isLoaded e (wait_base e (millis s0) s0) = (True, sC)"
    "now sC = now s0 + (10 * ((T + 9) div 10) + 20)"
    "millis sC - millis s0 = of_nat (10 * ((T + 9) div 10) + 20)"
    by auto
  then show ?thesis
    unfolding load_base_eq s0_def[symmetric] Let_def using n0 by simp
qed

lemma load_base_dry:
  assumes dry: "\<forall>t. water_disabled e t"
  shows "\<exists>s'. load_base e s = Inl (FAILED_LOAD_ISSUE, s') \<and> now s' = now s + 205940"
proof -
  define s0 where "s0 = digitalWrite WATER_LOAD_PIN RELAY_MODULE_ON (beepMessage LOAD_MSG (reset 200 s))"
  have n0: "now s0 = now s + 2940" unfolding s0_def by simp
  from base_poll_dry[OF dry, of s0] obtain sC where
    "isLoaded e (wait_base e (millis s0) s0) = (False, sC)"
    "now sC = now s0 + 200000" "millis sC - millis s0 = 200000"
    by auto
  then show ?thesis
    unfolding load_base_eq s0_def[symmetric] Let_def using n0 by (simp add: LOAD_TIMEOUT_def)
qed

section \<open>load: the top-up stage\<close>

lemma wait_topup_ends:
  assumes L: "unat loadTime < 2 ^ 30"
  shows "2 * unat (millis s - ls) < 3 * unat loadTime + 1000 \<Longrightarrow>
    \<exists>s' d. wait_topup e ls loadTime s = Some s' \<and> now s' = now s + d
       \<and> 2 * (unat (millis s - ls) + d) < 3 * unat loadTime + 1020
       \<and> (3 * unat loadTime \<le> 2 * (unat (millis s - ls) + d)
            \<or> (\<exists>t. now s' = t + 10 \<and> (\<forall>k<10. \<not> water_disabled e (t + k))))"
proof (induction "3 * unat loadTime + 1000 - 2 * unat (millis s - ls)" arbitrary: s rule: less_induct)
  case less
  define k where "k = clean_run e (now s) 10"
  define s1 where "s1 = snd (isLoaded e s)"
  have k: "k \<le> 10" unfolding k_def by (rule clean_run_le)
  have n1: "now s1 = now s + k" unfolding s1_def k_def by (rule isLoaded_now)
  have il: "isLoaded e s = (k = 10, s1)"
    unfolding s1_def k_def by (simp add: isLoaded_eq)
  have e1: "unat (millis s1 - ls) = unat (millis s - ls) + k"
    using elapsed_shift[OF n1, of ls] k less.prems L by simp
  show ?case
  proof (cases "k \<noteq> 10 \<and> 2 * unat (millis s1 - ls) < 3 * unat loadTime")
    case False
    then have r: "wait_topup e ls loadTime s = Some s1"
      by (subst wait_topup.simps, simp only: il topup_cond) auto
    have "3 * unat loadTime \<le> 2 * (unat (millis s - ls) + k)
            \<or> (\<exists>t. now s1 = t + 10 \<and> (\<forall>j<10. \<not> water_disabled e (t + j)))"
    proof (cases "k = 10")
      case True
      then have "\<forall>j<10. \<not> water_disabled e (now s + j)"
        using clean_run_full[of e "now s" 10] unfolding k_def by simp
      with True n1 show ?thesis by auto
    next
      case k10: False
      with False e1 show ?thesis by simp
    qed
    with r n1 k less.prems show ?thesis
      by (intro exI[of _ s1] exI[of _ k]) simp
  next
    case True
    let ?s2 = "delay 400 (beep 1 50 50 s1)"
    have n2: "now ?s2 = now s + (k + 500)" using n1 by simp
    have e2: "unat (millis ?s2 - ls) = unat (millis s - ls) + (k + 500)"
      using elapsed_shift[OF n2, of ls] True e1 L by simp
    have step: "wait_topup e ls loadTime s = wait_topup e ls loadTime ?s2"
      using True by (subst wait_topup.simps, simp only: il topup_cond) simp
    have m: "3 * unat loadTime + 1000 - 2 * unat (millis ?s2 - ls)
           < 3 * unat loadTime + 1000 - 2 * unat (millis s - ls)"
      using e2 less.prems by simp
    have p: "2 * unat (millis ?s2 - ls) < 3 * unat loadTime + 1000"
      using e2 e1 True by simp
    from less.hyps[OF m p] obtain s' d where
      s': "wait_topup e ls loadTime ?s2 = Some s'" "now s' = now ?s2 + d"
        "2 * (unat (millis ?s2 - ls) + d) < 3 * unat loadTime + 1020"
        "3 * unat loadTime \<le> 2 * (unat (millis ?s2 - ls) + d)
            \<or> (\<exists>t. now s' = t + 10 \<and> (\<forall>k<10. \<not> water_disabled e (t + k)))"
      by blast
    have a: "unat (millis ?s2 - ls) + d = unat (millis s - ls) + (k + 500 + d)"
      using e2 by simp
    have b: "now s' = now s + (k + 500 + d)"
      using s'(2) n2 by simp
    show ?thesis
      unfolding step using s'(1) s'(3,4) b unfolding a
      by (intro exI[of _ s'] exI[of _ "k + 500 + d"]) simp
  qed
qed

lemma load_extend_dry_from:
  assumes d: "wait_double (millis s) loadTime s = Some s2"
    and dry: "\<forall>t\<ge>now s2. water_disabled e t" and L: "unat loadTime < 2 ^ 30"
  shows "\<exists>s'. load_extend e loadTime s = Some (Inl (FAILED_TOP_UP_ISSUE, s'))"
proof -
  define s3 where "s3 = agitated ((2 * unat loadTime + 2999) div 3000) (digitalWrite MAIN_PUMP_PIN RELAY_MODULE_ON s2)"
  have a: "s3 = wait_agitate (millis s2) loadTime (digitalWrite MAIN_PUMP_PIN RELAY_MODULE_ON s2)"
    unfolding s3_def by (rule wait_agitate_run[symmetric]) simp
  have n3: "now s2 \<le> now s3" unfolding s3_def by simp
  define s4 where "s4 = emit (DigitalRead WATER_DISABLED_PIN) (topped ((3 * unat loadTime + 999) div 1000) s3)"
  have t: "wait_topup e (millis s3) loadTime s3 = Some s4"
    unfolding s4_def using dry n3 L by (intro wait_topup_dry_run) simp_all
  have "now s3 \<le> now s4" unfolding s4_def by (simp add: topped_def)
  with n3 dry have "water_disabled e (now s4)" by simp
  then have "\<not> fst (isLoaded e s4)" by (simp add: isLoaded_dry)
  with load_extend_eq[OF d a t] show ?thesis by simp
qed

section \<open>load: when it fails\<close>

text \<open>
  C3. Let \<open>s0\<close> be the state in which \<open>load\<close> has opened the valve, \<open>poll\<close> the poll it makes
  after the first waiting loop, and \<open>elapsed\<close> the 32-bit difference
  \<^verbatim>\<open>millis() - loadStarts\<close> after that poll. Then \<open>load\<close> crashes with
  \<open>FAILED_LOAD_ISSUE\<close> = 3 exactly when the poll is false and \<open>elapsed\<close> is at least
  \<open>LOAD_TIMEOUT\<close> = 200000. In every other case, a true poll at or after the timeout
  among them, it goes on with the rest of the load, with \<open>elapsed\<close> as its
  \<^verbatim>\<open>loadTime\<close>; what follows never raises this fault.
\<close>

theorem load_fails_iff:
  "(let s0 = digitalWrite WATER_LOAD_PIN RELAY_MODULE_ON (beepMessage LOAD_MSG (reset 200 s));
        poll = isLoaded e (wait_base e (millis s0) s0);
        elapsed = millis (snd poll) - millis s0
    in ((\<exists>s'. load e s = Some (Inl (FAILED_LOAD_ISSUE, s')))
          = (\<not> fst poll \<and> LOAD_TIMEOUT \<le> elapsed))
     \<and> (if \<not> fst poll \<and> LOAD_TIMEOUT \<le> elapsed
        then load e s = Some (Inl (FAILED_LOAD_ISSUE, reset 500 (snd poll)))
        else load e s = load_extend e elapsed (snd poll)))
   \<and> FAILED_LOAD_ISSUE = 3 \<and> LOAD_TIMEOUT = 200000"
proof -
  define s0 where "s0 = digitalWrite WATER_LOAD_PIN RELAY_MODULE_ON (beepMessage LOAD_MSG (reset 200 s))"
  define poll where "poll = isLoaded e (wait_base e (millis s0) s0)"
  define elapsed where "elapsed = millis (snd poll) - millis s0"
  have lb: "load_base e s =
      (if \<not> fst poll \<and> LOAD_TIMEOUT \<le> elapsed
       then Inl (FAILED_LOAD_ISSUE, reset 500 (snd poll))
       else Inr (elapsed, snd poll))"
    unfolding load_base_eq Let_def s0_def[symmetric] poll_def[symmetric] elapsed_def[symmetric] ..
  have b: "if \<not> fst poll \<and> LOAD_TIMEOUT \<le> elapsed
        then load e s = Some (Inl (FAILED_LOAD_ISSUE, reset 500 (snd poll)))
        else load e s = load_extend e elapsed (snd poll)"
    by (simp add: load_def lb)
  have a: "(\<exists>s'. load e s = Some (Inl (FAILED_LOAD_ISSUE, s')))
          = (\<not> fst poll \<and> LOAD_TIMEOUT \<le> elapsed)"
  proof (cases "\<not> fst poll \<and> LOAD_TIMEOUT \<le> elapsed")
    case True
    with b show ?thesis by simp
  next
    case False
    with b have l: "load e s = load_extend e elapsed (snd poll)" by simp
    have "\<not> (\<exists>s'. load_extend e elapsed (snd poll) = Some (Inl (FAILED_LOAD_ISSUE, s')))"
      using load_extend_code[of e elapsed "snd poll" FAILED_LOAD_ISSUE]
      by (auto simp: FAILED_LOAD_ISSUE_def FAILED_TOP_UP_ISSUE_def)
    with False l show ?thesis by simp
  qed
  show ?thesis
    unfolding Let_def s0_def[symmetric] poll_def[symmetric] elapsed_def[symmetric]
    using a b by (simp add: FAILED_LOAD_ISSUE_def LOAD_TIMEOUT_def)
qed

theorem load_fails_iff_witness:
  "(\<exists>s'. load dry power_up = Some (Inl (3, s')))
   \<and> \<not> (\<exists>s'. load late power_up = Some (Inl (3, s')))"
proof -
  define s0 where "s0 = digitalWrite WATER_LOAD_PIN RELAY_MODULE_ON (beepMessage LOAD_MSG (reset 200 power_up))"
  have n0: "now s0 = 2940" unfolding s0_def by (simp add: power_up_def)
  have d: "\<forall>t. water_disabled dry t" by (simp add: dry_def)
  from base_poll_dry[OF d, of s0] obtain sC where
    pd: "isLoaded dry (wait_base dry (millis s0) s0) = (False, sC)"
      "millis sC - millis s0 = 200000"
    by auto
  have a: "\<exists>s'. load dry power_up = Some (Inl (FAILED_LOAD_ISSUE, s'))"
    using load_fails_iff[of power_up dry] pd
    unfolding Let_def s0_def[symmetric] by (simp add: LOAD_TIMEOUT_def)
  have "\<forall>t. now s0 \<le> t \<and> t < now s0 + 200000 \<longrightarrow> water_disabled late t"
    and "\<forall>t. now s0 + 200000 \<le> t \<and> t < now s0 + 200000 + 30 \<longrightarrow> \<not> water_disabled late t"
    using n0 by (simp_all add: late_def)
  from base_poll_fill[OF this, of ] obtain sD where
    pl: "isLoaded late (wait_base late (millis s0) s0) = (True, sD)"
    by auto
  have "(\<exists>s'. load late power_up = Some (Inl (FAILED_LOAD_ISSUE, s')))
          = (\<not> fst (isLoaded late (wait_base late (millis s0) s0))
             \<and> LOAD_TIMEOUT \<le> millis (snd (isLoaded late (wait_base late (millis s0) s0))) - millis s0)"
    using load_fails_iff[of power_up late]
    unfolding Let_def s0_def[symmetric] by (rule conjunct1[THEN conjunct1])
  then have b: "\<not> (\<exists>s'. load late power_up = Some (Inl (FAILED_LOAD_ISSUE, s')))"
    by (simp only: pl fst_conv not_True_eq_False simp_thms)
  from a b show ?thesis by (simp add: FAILED_LOAD_ISSUE_def)
qed

text \<open>
  C4. When the base stage of \<open>load\<close> has returned, the rest always ends: the doubling
  wait ends in a state \<open>s2\<close>, in which the main pump is switched on, and the top-up
  polling ends in a state \<open>s4\<close>. One more poll is then taken, and \<open>load\<close> crashes with
  \<open>FAILED_TOP_UP_ISSUE\<close> = 4 if it is false and returns, with the valve closed, if it is
  true. In particular a level line that reads "no water" from the start of the main pump
  on makes \<open>load\<close> crash with \<open>FAILED_TOP_UP_ISSUE\<close>.
\<close>

theorem top_up_failure:
  assumes lb: "load_base e s = Inr (loadTime, s1)"
  shows "(\<exists>s2 s4.
        wait_double (millis s1) loadTime s1 = Some s2
      \<and> now s2 = now s1 + 1130 * ((unat loadTime + 1129) div 1130)
      \<and> (let s3 = wait_agitate (millis s2) loadTime (digitalWrite MAIN_PUMP_PIN RELAY_MODULE_ON s2)
         in wait_topup e (millis s3) loadTime s3 = Some s4)
      \<and> load e s =
          Some (if \<not> fst (isLoaded e s4)
                then Inl (FAILED_TOP_UP_ISSUE, reset 500 (snd (isLoaded e s4)))
                else Inr (delay 1000 (digitalWrite WATER_LOAD_PIN RELAY_MODULE_OFF
                                        (snd (isLoaded e s4)))))
      \<and> ((\<forall>t\<ge>now s2. water_disabled e t)
            \<longrightarrow> (\<exists>s'. load e s = Some (Inl (FAILED_TOP_UP_ISSUE, s')))))
    \<and> FAILED_TOP_UP_ISSUE = 4"
proof -
  have L: "unat loadTime < 200030" by (rule load_base_time[OF lb])
  have le: "load e s = load_extend e loadTime s1"
    using lb by (simp add: load_def)
  define s2 where "s2 = doubled ((unat loadTime + 1129) div 1130) s1"
  have d: "wait_double (millis s1) loadTime s1 = Some s2"
    unfolding s2_def using L by (intro wait_double_run) simp_all
  have n2: "now s2 = now s1 + 1130 * ((unat loadTime + 1129) div 1130)"
    unfolding s2_def by simp
  define s3 where "s3 = wait_agitate (millis s2) loadTime (digitalWrite MAIN_PUMP_PIN RELAY_MODULE_ON s2)"
  from wait_topup_ends[of loadTime s3 "millis s3" e] L obtain s4 where
    t: "wait_topup e (millis s3) loadTime s3 = Some s4" by auto
  have r: "load e s =
          Some (if \<not> fst (isLoaded e s4)
                then Inl (FAILED_TOP_UP_ISSUE, reset 500 (snd (isLoaded e s4)))
                else Inr (delay 1000 (digitalWrite WATER_LOAD_PIN RELAY_MODULE_OFF
                                        (snd (isLoaded e s4)))))"
    unfolding le by (rule load_extend_eq[OF d s3_def t])
  have f: "(\<forall>t\<ge>now s2. water_disabled e t)
            \<longrightarrow> (\<exists>s'. load e s = Some (Inl (FAILED_TOP_UP_ISSUE, s')))"
    unfolding le using load_extend_dry_from[OF d, of e] L by simp
  show ?thesis
    using d n2 t r f unfolding s3_def Let_def
    by (auto simp: FAILED_TOP_UP_ISSUE_def)
qed

theorem top_up_failure_witness:
  "\<exists>s'. load base_only power_up = Some (Inl (4, s'))"
proof -
  have "\<forall>t. now power_up + 2940 \<le> t \<and> t < now power_up + 2940 + 0 \<longrightarrow> water_disabled base_only t"
    and "\<forall>t. now power_up + 2940 + 0 \<le> t \<and> t < now power_up + 2940 + 0 + 30 \<longrightarrow> \<not> water_disabled base_only t"
    by (simp_all add: base_only_def power_up_def)
  from load_base_fill[OF this] obtain s1 where
    lb: "load_base base_only power_up = Inr (20, s1)" and n1: "now s1 = 2960"
    by (auto simp: power_up_def)
  from top_up_failure[OF lb] have
    "\<exists>s2 s4.
        wait_double (millis s1) 20 s1 = Some s2
      \<and> now s2 = now s1 + 1130 * ((unat (20 :: ulong) + 1129) div 1130)
      \<and> (let s3 = wait_agitate (millis s2) 20 (digitalWrite MAIN_PUMP_PIN RELAY_MODULE_ON s2)
         in wait_topup base_only (millis s3) 20 s3 = Some s4)
      \<and> load base_only power_up =
          Some (if \<not> fst (isLoaded base_only s4)
                then Inl (FAILED_TOP_UP_ISSUE, reset 500 (snd (isLoaded base_only s4)))
                else Inr (delay 1000 (digitalWrite WATER_LOAD_PIN RELAY_MODULE_OFF
                                        (snd (isLoaded base_only s4)))))
      \<and> ((\<forall>t\<ge>now s2. water_disabled base_only t)
            \<longrightarrow> (\<exists>s'. load base_only power_up = Some (Inl (FAILED_TOP_UP_ISSUE, s'))))"
    by (rule conjunct1)
  then obtain s2 :: state where
    n2: "now s2 = now s1 + 1130 * ((unat (20 :: ulong) + 1129) div 1130)"
    and f: "(\<forall>t\<ge>now s2. water_disabled base_only t)
            \<longrightarrow> (\<exists>s'. load base_only power_up = Some (Inl (FAILED_TOP_UP_ISSUE, s')))"
    by blast
  have "now s2 = 4090" using n2 n1 by simp
  then have "\<forall>t\<ge>now s2. water_disabled base_only t" by (simp add: base_only_def)
  with f show ?thesis by (simp add: FAILED_TOP_UP_ISSUE_def)
qed

section \<open>load: the timing\<close>

text \<open>
  C2. \<open>load\<close> opens the valve 2940 ms after it is called. Let the level line read "no
  water" for the next \<open>T\<close> ms and "water" for the 30 ms after them (the two polls that
  follow), with \<open>T\<close> within the timeout. Then, all times in ms:
  \<^item> \<^verbatim>\<open>loadTime\<close> is \<open>T\<close> rounded up to the 10 ms polling grid, plus the two polls of
    10 ms each that confirm the level: between \<open>T + 20\<close> and \<open>T + 29\<close>;
  \<^item> the doubling wait lasts \<open>1130 * n2\<close>, the first multiple of its 1130 ms pass that is
    not below \<^verbatim>\<open>loadTime\<close>, and logs beeps and delays only;
  \<^item> the main pump is then switched on, and the wait that follows lasts \<open>1000 * n3\<close>,
    the first multiple of its 1000 ms pass that is not below \<^verbatim>\<open>loadTime / 1.5\<close>; its
    log has beeps and delays only, no read of the level line;
  \<^item> the top-up polling ends after \<open>d\<close> with \<open>d < loadTime * 1.5 + 510\<close>, and it ends
    before \<^verbatim>\<open>loadTime * 1.5\<close> only on a poll that read "water" ten times;
  \<^item> \<open>load\<close> then ends on the last poll.
  All three waits are computed from the one \<^verbatim>\<open>loadTime\<close>.
\<close>

theorem load_timing:
  assumes dry: "\<forall>t. now s + 2940 \<le> t \<and> t < now s + 2940 + T \<longrightarrow> water_disabled e t"
    and wet: "\<forall>t. now s + 2940 + T \<le> t \<and> t < now s + 2940 + T + 30 \<longrightarrow> \<not> water_disabled e t"
    and T: "T \<le> 200000"
  shows "\<exists>loadTime s1 s2 s3 s4 n2 n3 d.
      load_base e s = Inr (loadTime, s1)
    \<and> T + 20 \<le> unat loadTime \<and> unat loadTime \<le> T + 29
    \<and> wait_double (millis s1) loadTime s1 = Some s2
    \<and> now s2 = now s1 + 1130 * n2
    \<and> unat loadTime \<le> 1130 * n2 \<and> 1130 * n2 < unat loadTime + 1130
    \<and> trace s2 = trace s1 @ concat (replicate n2 [Tone SPEAKER_PIN 1000 80, Delay 130, Delay 1000])
    \<and> s3 = wait_agitate (millis s2) loadTime (digitalWrite MAIN_PUMP_PIN RELAY_MODULE_ON s2)
    \<and> now s3 = now s2 + 1000 * n3
    \<and> 2 * unat loadTime \<le> 3 * (1000 * n3) \<and> 3 * (1000 * n3) < 2 * unat loadTime + 3000
    \<and> trace s3 = trace s2 @ DigitalWrite MAIN_PUMP_PIN RELAY_MODULE_ON #
          concat (replicate n3 [Tone SPEAKER_PIN 1000 50, Delay 100,
                                Tone SPEAKER_PIN 1000 50, Delay 100, Delay 800])
    \<and> wait_topup e (millis s3) loadTime s3 = Some s4
    \<and> now s4 = now s3 + d
    \<and> 2 * d < 3 * unat loadTime + 1020
    \<and> (3 * unat loadTime \<le> 2 * d
        \<or> (\<exists>t. now s4 = t + 10 \<and> (\<forall>k<10. \<not> water_disabled e (t + k))))
    \<and> load e s =
          Some (if \<not> fst (isLoaded e s4)
                then Inl (FAILED_TOP_UP_ISSUE, reset 500 (snd (isLoaded e s4)))
                else Inr (delay 1000 (digitalWrite WATER_LOAD_PIN RELAY_MODULE_OFF
                                        (snd (isLoaded e s4)))))"
proof -
  define L where "L = 10 * ((T + 9) div 10) + 20"
  define loadTime :: ulong where "loadTime = of_nat L"
  have L1: "T + 20 \<le> L" and L2: "L \<le> T + 29" unfolding L_def by simp_all
  have uL: "unat loadTime = L"
    unfolding loadTime_def using L2 T by (simp add: unat_of_nat)
  from load_base_fill[OF dry wet T] obtain s1 where
    lb: "load_base e s = Inr (loadTime, s1)"
    unfolding loadTime_def L_def by blast
  define n2 where "n2 = (L + 1129) div 1130"
  define s2 where "s2 = doubled n2 s1"
  have d: "wait_double (millis s1) loadTime s1 = Some s2"
    unfolding s2_def n2_def using uL L2 T by (intro wait_double_run) simp_all
  have b2: "L \<le> 1130 * n2" "1130 * n2 < L + 1130" unfolding n2_def by simp_all
  define n3 where "n3 = (2 * L + 2999) div 3000"
  define s3 where "s3 = wait_agitate (millis s2) loadTime (digitalWrite MAIN_PUMP_PIN RELAY_MODULE_ON s2)"
  have a: "s3 = agitated n3 (digitalWrite MAIN_PUMP_PIN RELAY_MODULE_ON s2)"
    unfolding s3_def n3_def using uL by (intro wait_agitate_run) simp
  have b3: "2 * L \<le> 3 * (1000 * n3)" "3 * (1000 * n3) < 2 * L + 3000"
    unfolding n3_def by simp_all
  have Lb: "unat loadTime < 2 ^ 30" using uL L2 T by simp
  have pre: "2 * unat (millis s3 - millis s3) < 3 * unat loadTime + 1000" by simp
  have "\<exists>s' d. wait_topup e (millis s3) loadTime s3 = Some s' \<and> now s' = now s3 + d
       \<and> 2 * d < 3 * L + 1020
       \<and> (3 * L \<le> 2 * d \<or> (\<exists>t. now s' = t + 10 \<and> (\<forall>k<10. \<not> water_disabled e (t + k))))"
    using wait_topup_ends[OF Lb pre, of e] by (simp add: uL)
  then obtain s4 :: state and dd :: nat where
    t: "wait_topup e (millis s3) loadTime s3 = Some s4" "now s4 = now s3 + dd"
      "2 * dd < 3 * L + 1020"
      "3 * L \<le> 2 * dd \<or> (\<exists>t. now s4 = t + 10 \<and> (\<forall>k<10. \<not> water_disabled e (t + k)))"
    by blast
  have r: "load e s =
          Some (if \<not> fst (isLoaded e s4)
                then Inl (FAILED_TOP_UP_ISSUE, reset 500 (snd (isLoaded e s4)))
                else Inr (delay 1000 (digitalWrite WATER_LOAD_PIN RELAY_MODULE_OFF
                                        (snd (isLoaded e s4)))))"
    using load_extend_eq[OF d s3_def t(1)] lb by (simp add: load_def)
  have tr2: "trace s2 = trace s1 @ concat (replicate n2 [Tone SPEAKER_PIN 1000 80, Delay 130, Delay 1000])"
    unfolding s2_def by (simp add: doubled_def)
  have tr3: "trace s3 = trace s2 @ DigitalWrite MAIN_PUMP_PIN RELAY_MODULE_ON #
          concat (replicate n3 [Tone SPEAKER_PIN 1000 50, Delay 100,
                                Tone SPEAKER_PIN 1000 50, Delay 100, Delay 800])"
    unfolding a by (simp add: agitated_def)
  have nw2: "now s2 = now s1 + 1130 * n2" unfolding s2_def by simp
  have nw3: "now s3 = now s2 + 1000 * n3" unfolding a by simp
  show ?thesis
    apply (rule exI[of _ loadTime], rule exI[of _ s1], rule exI[of _ s2], rule exI[of _ s3])
    apply (rule exI[of _ s4], rule exI[of _ n2], rule exI[of _ n3], rule exI[of _ dd])
    unfolding uL
    using lb L1 L2 d nw2 b2 tr2 s3_def nw3 b3 tr3 t r
    apply (intro conjI)
    apply assumption+
    done
qed

theorem load_timing_witness:
  "\<exists>loadTime s1 s2 s3 s4 n2 n3 d.
      load_base fills_at_5000 power_up = Inr (loadTime, s1)
    \<and> 5000 + 20 \<le> unat loadTime \<and> unat loadTime \<le> 5000 + 29
    \<and> wait_double (millis s1) loadTime s1 = Some s2
    \<and> now s2 = now s1 + 1130 * n2
    \<and> unat loadTime \<le> 1130 * n2 \<and> 1130 * n2 < unat loadTime + 1130
    \<and> trace s2 = trace s1 @ concat (replicate n2 [Tone SPEAKER_PIN 1000 80, Delay 130, Delay 1000])
    \<and> s3 = wait_agitate (millis s2) loadTime (digitalWrite MAIN_PUMP_PIN RELAY_MODULE_ON s2)
    \<and> now s3 = now s2 + 1000 * n3
    \<and> 2 * unat loadTime \<le> 3 * (1000 * n3) \<and> 3 * (1000 * n3) < 2 * unat loadTime + 3000
    \<and> trace s3 = trace s2 @ DigitalWrite MAIN_PUMP_PIN RELAY_MODULE_ON #
          concat (replicate n3 [Tone SPEAKER_PIN 1000 50, Delay 100,
                                Tone SPEAKER_PIN 1000 50, Delay 100, Delay 800])
    \<and> wait_topup fills_at_5000 (millis s3) loadTime s3 = Some s4
    \<and> now s4 = now s3 + d
    \<and> 2 * d < 3 * unat loadTime + 1020
    \<and> (3 * unat loadTime \<le> 2 * d
        \<or> (\<exists>t. now s4 = t + 10 \<and> (\<forall>k<10. \<not> water_disabled fills_at_5000 (t + k))))
    \<and> load fills_at_5000 power_up =
          Some (if \<not> fst (isLoaded fills_at_5000 s4)
                then Inl (FAILED_TOP_UP_ISSUE, reset 500 (snd (isLoaded fills_at_5000 s4)))
                else Inr (delay 1000 (digitalWrite WATER_LOAD_PIN RELAY_MODULE_OFF
                                        (snd (isLoaded fills_at_5000 s4)))))"
  by (rule load_timing[of power_up 5000 fills_at_5000])
     (simp_all add: fills_at_5000_def power_up_def)

end
